theory Spec2Isabelle
  imports Main "HOL-Library.Sublist" "HOL-Library.Char_ord" "HOL-Library.List_Lexorder"
begin

section \<open>JavaScript values\<close>

text \<open>
  The values that occur in breach records and in the arguments of the chain methods of
  \<^verbatim>\<open>src/lib.js\<close>. Numbers are integers or NaN: the schema admits integers only
  (\<^verbatim>\<open>PwnCount: number.integer()\<close>), the time value of a valid date is an
  integer number of milliseconds (the schema admits valid dates only), and booleans convert
  to 0 and 1. Arrays are arrays of strings, the only arrays of the schema
  (\<^verbatim>\<open>DataClasses: array.items(string)\<close>) and of the documented arguments. A string
  is the UTF-8 byte sequence of the JavaScript string.
\<close>

datatype jsnum = Fin int | NaN

datatype jsval =
    VUndefined
  | VBool bool
  | VNum jsnum
  | VStr string
  | VDate int
  | VArr "string list"

text \<open>An object is its list of own properties, in insertion order.\<close>

type_synonym obj = "(string \<times> jsval) list"

datatype error = TypeError

text \<open>
  What the JavaScript host decides and the program does not: the collation behind
  \<^verbatim>\<open>String.prototype.localeCompare\<close> and the text of
  \<^verbatim>\<open>Date.prototype.toString\<close>.
\<close>

record host =
  localeCompare :: "string \<Rightarrow> string \<Rightarrow> int"
  dateToString :: "int \<Rightarrow> string"

subsection \<open>Arithmetic on numbers\<close>

fun num_sub :: "jsnum \<Rightarrow> jsnum \<Rightarrow> jsnum" where
  "num_sub (Fin a) (Fin b) = Fin (a - b)"
| "num_sub _ _ = NaN"

fun num_mul :: "jsnum \<Rightarrow> jsnum \<Rightarrow> jsnum" where
  "num_mul (Fin a) (Fin b) = Fin (a * b)"
| "num_mul _ _ = NaN"

subsection \<open>Conversions\<close>

text \<open>\<^verbatim>\<open>ToBoolean\<close>: objects (dates, arrays) are truthy.\<close>

fun truthy :: "jsval \<Rightarrow> bool" where
  "truthy VUndefined = False"
| "truthy (VBool b) = b"
| "truthy (VNum (Fin n)) = (n \<noteq> 0)"
| "truthy (VNum NaN) = False"
| "truthy (VStr s) = (s \<noteq> [])"
| "truthy (VDate _) = True"
| "truthy (VArr _) = True"

definition is_space :: "char \<Rightarrow> bool" where
  "is_space c = (c \<in> set [CHR '' '', CHR 0x09, CHR 0x0A, CHR 0x0B, CHR 0x0C, CHR 0x0D])"

definition is_digit :: "char \<Rightarrow> bool" where
  "is_digit c = (CHR ''0'' \<le> c \<and> c \<le> CHR ''9'')"

definition digits_value :: "string \<Rightarrow> nat" where
  "digits_value s = foldl (\<lambda>acc c. 10 * acc + (of_char c - 48)) 0 s"

definition trim :: "string \<Rightarrow> string" where
  "trim s = rev (dropWhile is_space (rev (dropWhile is_space s)))"

definition unsigned_number :: "string \<Rightarrow> jsnum" where
  "unsigned_number s =
     (if s \<noteq> [] \<and> list_all is_digit s then Fin (int (digits_value s)) else NaN)"

text \<open>
  \<^verbatim>\<open>StringToNumber\<close> on the decimal integer literals: white space is trimmed,
  the empty string is 0, an optional sign precedes the digits. Every other string is NaN
  here; literals with a fraction, an exponent or a radix prefix, and
  \<^verbatim>\<open>Infinity\<close>, have no value among the integers of this model.
\<close>

definition string_to_number :: "string \<Rightarrow> jsnum" where
  "string_to_number s =
     (case trim s of
        [] \<Rightarrow> Fin 0
      | c # cs \<Rightarrow>
          if c = CHR ''-'' then num_mul (Fin (- 1)) (unsigned_number cs)
          else if c = CHR ''+'' then unsigned_number cs
          else unsigned_number (c # cs))"

text \<open>\<^verbatim>\<open>ToNumber\<close>. An array converts through its string, the join of its elements.\<close>

fun to_number :: "jsval \<Rightarrow> jsnum" where
  "to_number VUndefined = NaN"
| "to_number (VBool b) = Fin (if b then 1 else 0)"
| "to_number (VNum n) = n"
| "to_number (VStr s) = string_to_number s"
| "to_number (VDate t) = Fin t"
| "to_number (VArr []) = Fin 0"
| "to_number (VArr [s]) = string_to_number s"
| "to_number (VArr (s # t # ss)) = NaN"

fun nat_to_string :: "nat \<Rightarrow> string" where
  "nat_to_string n =
     (if n < 10 then [char_of (48 + n)]
      else nat_to_string (n div 10) @ [char_of (48 + n mod 10)])"

definition int_to_string :: "int \<Rightarrow> string" where
  "int_to_string i =
     (if i < 0 then CHR ''-'' # nat_to_string (nat (- i)) else nat_to_string (nat i))"

fun join :: "string list \<Rightarrow> string" where
  "join [] = []"
| "join [s] = s"
| "join (s # t # ss) = s @ CHR '','' # join (t # ss)"

text \<open>\<^verbatim>\<open>ToString\<close>, which is also \<^verbatim>\<open>String(v)\<close>.\<close>

fun to_string :: "host \<Rightarrow> jsval \<Rightarrow> string" where
  "to_string h VUndefined = ''undefined''"
| "to_string h (VBool b) = (if b then ''true'' else ''false'')"
| "to_string h (VNum (Fin n)) = int_to_string n"
| "to_string h (VNum NaN) = ''NaN''"
| "to_string h (VStr s) = s"
| "to_string h (VDate t) = dateToString h t"
| "to_string h (VArr ss) = join ss"

text \<open>
  \<^verbatim>\<open>toLowerCase\<close> on the letters A to Z. The program compares the result with
  \<^verbatim>\<open>"asc"\<close> and \<^verbatim>\<open>"desc"\<close> only, and no other character lowers
  to one of their letters.
\<close>

definition lower_char :: "char \<Rightarrow> char" where
  "lower_char c = (if CHR ''A'' \<le> c \<and> c \<le> CHR ''Z'' then char_of (of_char c + (32::nat)) else c)"

definition toLowerCase :: "string \<Rightarrow> string" where
  "toLowerCase s = map lower_char s"

subsection \<open>Equality\<close>

text \<open>
  \<^verbatim>\<open>===\<close>. Dates and arrays are objects and compare by identity; an argument of a
  chain method is taken to be a value of its own, never the very object stored in a record,
  so two of them are never identical.
\<close>

fun strict_eq :: "jsval \<Rightarrow> jsval \<Rightarrow> bool" where
  "strict_eq VUndefined VUndefined = True"
| "strict_eq (VBool a) (VBool b) = (a = b)"
| "strict_eq (VNum (Fin a)) (VNum (Fin b)) = (a = b)"
| "strict_eq (VStr a) (VStr b) = (a = b)"
| "strict_eq _ _ = False"

text \<open>\<^verbatim>\<open>SameValueZero\<close>, the equality of \<^verbatim>\<open>Array.prototype.includes\<close>: NaN equals NaN.\<close>

fun same_value_zero :: "jsval \<Rightarrow> jsval \<Rightarrow> bool" where
  "same_value_zero (VNum NaN) (VNum NaN) = True"
| "same_value_zero a b = strict_eq a b"

subsection \<open>Objects and arrays\<close>

text \<open>
  \<^verbatim>\<open>b[key]\<close>: the value of the property, undefined when the object has none of
  that name. The properties inherited from \<^verbatim>\<open>Object.prototype\<close> are not modelled.
\<close>

definition get_prop :: "obj \<Rightarrow> string \<Rightarrow> jsval" where
  "get_prop b k = (case map_of b k of None \<Rightarrow> VUndefined | Some v \<Rightarrow> v)"

text \<open>\<^verbatim>\<open>b[key] = v\<close>: an existing property keeps its place, a new one comes last.\<close>

fun set_prop :: "obj \<Rightarrow> string \<Rightarrow> jsval \<Rightarrow> obj" where
  "set_prop [] k v = [(k, v)]"
| "set_prop ((k', v') # ps) k v =
     (if k' = k then (k, v) # ps else (k', v') # set_prop ps k v)"

text \<open>\<^verbatim>\<open>Array.prototype.flat()\<close> on an argument list: one level of arrays is spread.\<close>

fun flat :: "jsval list \<Rightarrow> jsval list" where
  "flat [] = []"
| "flat (VArr ss # vs) = map VStr ss @ flat vs"
| "flat (v # vs) = v # flat vs"

text \<open>\<^verbatim>\<open>Array.prototype.includes\<close> on an array of values.\<close>

definition array_includes :: "jsval list \<Rightarrow> jsval \<Rightarrow> bool" where
  "array_includes xs v = list_ex (\<lambda>x. same_value_zero x v) xs"

fun substring :: "string \<Rightarrow> string \<Rightarrow> bool" where
  "substring p [] = (p = [])"
| "substring p (c # cs) = (prefix p (c # cs) \<or> substring p cs)"

text \<open>
  The method call \<^verbatim>\<open>v.includes(x)\<close>: arrays and strings have the method, a call on
  any other value is a TypeError.
\<close>

fun includes_method :: "host \<Rightarrow> jsval \<Rightarrow> jsval \<Rightarrow> error + jsval" where
  "includes_method h (VArr ss) x = Inr (VBool (array_includes (map VStr ss) x))"
| "includes_method h (VStr s) x = Inr (VBool (substring (to_string h x) s))"
| "includes_method h _ x = Inl TypeError"

text \<open>The method call \<^verbatim>\<open>v.getTime()\<close>: only dates have it.\<close>

fun getTime :: "jsval \<Rightarrow> error + jsval" where
  "getTime (VDate t) = Inr (VNum (Fin t))"
| "getTime _ = Inl TypeError"

text \<open>
  \<^verbatim>\<open>Array.prototype.slice(0, end)\<close>: a NaN end is 0, a negative end counts from
  the end of the array, and the result stays within the array.
\<close>

definition slice0 :: "'a list \<Rightarrow> jsnum \<Rightarrow> 'a list" where
  "slice0 xs e =
     (let len = int (length xs);
          rel = (case e of NaN \<Rightarrow> 0 | Fin n \<Rightarrow> n);
          fin = (if rel < 0 then max (len + rel) 0 else min rel len)
      in take (nat fin) xs)"

text \<open>
  \<^verbatim>\<open>Array.prototype.filter\<close>: the callback is called on every element in order,
  its result is read as a boolean, and an exception of the callback ends the call.
\<close>

fun array_filter :: "('a \<Rightarrow> error + jsval) \<Rightarrow> 'a list \<Rightarrow> error + 'a list" where
  "array_filter fn [] = Inr []"
| "array_filter fn (x # xs) =
     (case fn x of
        Inl e \<Rightarrow> Inl e
      | Inr v \<Rightarrow>
          (case array_filter fn xs of
             Inl e \<Rightarrow> Inl e
           | Inr ys \<Rightarrow> Inr (if truthy v then x # ys else ys)))"

text \<open>
  \<^verbatim>\<open>Array.prototype.sort(comparefn)\<close>. The result of the comparator is converted
  to a number, NaN counting as 0; a negative number puts the first argument before the
  second. The sort is the insertion sort on an array: each element in turn moves left past
  the elements that it must precede, so that elements that compare as equal keep their
  order. ECMAScript requires a stable sort since its 2019 edition: for a consistent
  comparator every conforming sort returns what this one returns. For an inconsistent
  comparator the order is implementation-defined, and this is one of the orders allowed.
\<close>

definition sort_before :: "jsval \<Rightarrow> bool" where
  "sort_before v = (case to_number v of NaN \<Rightarrow> False | Fin n \<Rightarrow> n < 0)"

text \<open>
  \<open>sort_insert fn x acc\<close> inserts \<open>x\<close> into the sorted part \<open>acc\<close>, which is held
  last element first.
\<close>

fun sort_insert :: "('a \<Rightarrow> 'a \<Rightarrow> error + jsval) \<Rightarrow> 'a \<Rightarrow> 'a list \<Rightarrow> error + 'a list" where
  "sort_insert fn x [] = Inr [x]"
| "sort_insert fn x (y # ys) =
     (case fn x y of
        Inl e \<Rightarrow> Inl e
      | Inr v \<Rightarrow>
          if sort_before v
          then (case sort_insert fn x ys of Inl e \<Rightarrow> Inl e | Inr zs \<Rightarrow> Inr (y # zs))
          else Inr (x # y # ys))"

fun sort_loop :: "('a \<Rightarrow> 'a \<Rightarrow> error + jsval) \<Rightarrow> 'a list \<Rightarrow> 'a list \<Rightarrow> error + 'a list" where
  "sort_loop fn acc [] = Inr (rev acc)"
| "sort_loop fn acc (x # xs) =
     (case sort_insert fn x acc of Inl e \<Rightarrow> Inl e | Inr acc' \<Rightarrow> sort_loop fn acc' xs)"

definition array_sort :: "('a \<Rightarrow> 'a \<Rightarrow> error + jsval) \<Rightarrow> 'a list \<Rightarrow> error + 'a list" where
  "array_sort fn xs = sort_loop fn [] xs"

section \<open>The class HIBP\<close>

text \<open>
  A handle after \<^verbatim>\<open>getBreaches\<close> has resolved. Its two fields hold references to
  arrays; the arrays live in a store, so that the in-place \<^verbatim>\<open>Array.prototype.sort\<close>
  and the sharing of an array between the two fields can be told apart. The records in the
  arrays are values: no method of the class writes to a record, and a callback given to
  \<^verbatim>\<open>filter\<close> is a function of the record that writes nothing.
\<close>

record hibp =
  heap :: "nat \<Rightarrow> obj list"
  fresh :: nat
  ref_breaches :: nat
  ref_origBreaches :: nat

text \<open>The working set \<^verbatim>\<open>this._breaches\<close> and the snapshot \<^verbatim>\<open>this._origBreaches\<close>.\<close>

definition working :: "hibp \<Rightarrow> obj list" where
  "working s = heap s (ref_breaches s)"

definition original :: "hibp \<Rightarrow> obj list" where
  "original s = heap s (ref_origBreaches s)"

text \<open>
  A method call returns the handle, or throws and leaves the handle in the state it had
  reached.
\<close>

type_synonym outcome = "(error \<times> hibp) + hibp"

text \<open>\<^verbatim>\<open>this._breaches = xs\<close> for a newly created array \<open>xs\<close>.\<close>

definition assign_breaches :: "obj list \<Rightarrow> hibp \<Rightarrow> hibp" where
  "assign_breaches xs s =
     s\<lparr>heap := (heap s)(fresh s := xs), fresh := Suc (fresh s), ref_breaches := fresh s\<rparr>"

text \<open>\<^verbatim>\<open>HIBP.types\<close>, the lookup map of columns to datatypes.\<close>

definition HIBP_types :: "string \<Rightarrow> string option" where
  "HIBP_types = map_of
     [(''AddedDate'', ''date''),
      (''BreachDate'', ''date''),
      (''Domain'', ''string''),
      (''IsFabricated'', ''boolean''),
      (''IsRetired'', ''boolean''),
      (''IsSensitive'', ''boolean''),
      (''IsSpamList'', ''boolean''),
      (''IsVerified'', ''boolean''),
      (''ModifiedDate'', ''date''),
      (''Name'', ''string''),
      (''PwnCount'', ''number'')]"

text \<open>
  \<^verbatim>\<open>getBreaches\<close> on a new handle, once the request has resolved: \<open>data\<close> is the
  array that validation returns, stored in \<^verbatim>\<open>_breaches\<close>; its spread copy is a
  second array, stored in \<^verbatim>\<open>_origBreaches\<close>.
\<close>

definition getBreaches :: "obj list \<Rightarrow> hibp" where
  "getBreaches data =
     \<lparr>heap = (\<lambda>_. [])(0 := data, 1 := data), fresh = 2,
      ref_breaches = 0, ref_origBreaches = 1\<rparr>"

definition reset :: "hibp \<Rightarrow> hibp" where
  "reset s = assign_breaches (original s) s"

definition breaches :: "jsval \<Rightarrow> hibp \<Rightarrow> obj list" where
  "breaches limit s =
     (if truthy limit then slice0 (working s) (to_number limit) else working s)"

text \<open>\<^verbatim>\<open>filter(fn = () => true)\<close>: \<open>None\<close> is the omitted argument.\<close>

definition filter_op :: "(obj \<Rightarrow> error + jsval) option \<Rightarrow> hibp \<Rightarrow> outcome" where
  "filter_op fn_arg s =
     (let fn = (case fn_arg of None \<Rightarrow> (\<lambda>_. Inr (VBool True)) | Some f \<Rightarrow> f)
      in case array_filter fn (working s) of
           Inl e \<Rightarrow> Inl (e, s)
         | Inr xs \<Rightarrow> Inr (assign_breaches xs s))"

text \<open>A parameter with the default \<^verbatim>\<open>true\<close>: the default stands in for undefined.\<close>

definition default_true :: "jsval \<Rightarrow> jsval" where
  "default_true v = (if v = VUndefined then VBool True else v)"

definition boolProp :: "string \<Rightarrow> jsval \<Rightarrow> hibp \<Rightarrow> outcome" where
  "boolProp name bool s =
     filter_op
       (Some (\<lambda>breach. Inr (VBool (strict_eq (get_prop breach name)
                                       (VBool (truthy (default_true bool)))))))
       s"

definition isFabricated :: "jsval \<Rightarrow> hibp \<Rightarrow> outcome" where
  "isFabricated bool s = boolProp ''IsFabricated'' (default_true bool) s"

definition isRetired :: "jsval \<Rightarrow> hibp \<Rightarrow> outcome" where
  "isRetired bool s = boolProp ''IsRetired'' (default_true bool) s"

definition isSensitive :: "jsval \<Rightarrow> hibp \<Rightarrow> outcome" where
  "isSensitive bool s = boolProp ''IsSensitive'' (default_true bool) s"

definition isSpamList :: "jsval \<Rightarrow> hibp \<Rightarrow> outcome" where
  "isSpamList bool s = boolProp ''IsSpamList'' (default_true bool) s"

definition isVerified :: "jsval \<Rightarrow> hibp \<Rightarrow> outcome" where
  "isVerified bool s = boolProp ''IsVerified'' (default_true bool) s"

text \<open>The loop of \<^verbatim>\<open>hasDataClass\<close>: one \<^verbatim>\<open>filter\<close> call for each class.\<close>

fun hasDataClass_loop :: "host \<Rightarrow> jsval list \<Rightarrow> hibp \<Rightarrow> outcome" where
  "hasDataClass_loop h [] s = Inr s"
| "hasDataClass_loop h (dataClass # rest) s =
     (case filter_op
             (Some (\<lambda>breach. includes_method h (get_prop breach ''DataClasses'') dataClass)) s of
        Inl e \<Rightarrow> Inl e
      | Inr s' \<Rightarrow> hasDataClass_loop h rest s')"

definition hasDataClass :: "host \<Rightarrow> jsval list \<Rightarrow> hibp \<Rightarrow> outcome" where
  "hasDataClass h dataClasses s = hasDataClass_loop h (flat dataClasses) s"

text \<open>\<^verbatim>\<open>hasDomain(domain)\<close>: an omitted argument is undefined.\<close>

definition hasDomain :: "jsval \<Rightarrow> hibp \<Rightarrow> outcome" where
  "hasDomain domain s =
     (let fn = (if domain = VUndefined
                then (\<lambda>breach. Inr (VBool (\<not> strict_eq (get_prop breach ''Domain'') (VStr []))))
                else (\<lambda>breach. Inr (VBool (strict_eq (get_prop breach ''Domain'') domain))))
      in filter_op (Some fn) s)"

definition name :: "jsval list \<Rightarrow> hibp \<Rightarrow> outcome" where
  "name names s =
     (let names' = flat names
      in filter_op (Some (\<lambda>breach. Inr (VBool (array_includes names' (get_prop breach ''Name''))))) s)"

text \<open>
  \<^verbatim>\<open>pluck\<close>: each record is replaced by a new object that is given the requested
  properties one after the other.
\<close>

definition pluck_one :: "host \<Rightarrow> jsval list \<Rightarrow> obj \<Rightarrow> obj" where
  "pluck_one h props breach =
     foldl (\<lambda>ob prop. set_prop ob (to_string h prop) (get_prop breach (to_string h prop))) [] props"

definition pluck :: "host \<Rightarrow> jsval list \<Rightarrow> hibp \<Rightarrow> hibp" where
  "pluck h props s = assign_breaches (map (pluck_one h (flat props)) (working s)) s"

text \<open>
  The comparator \<^verbatim>\<open>fn\<close> that \<^verbatim>\<open>sort\<close> builds. The date case falls through
  to the subtraction; a key without a type returns \<^verbatim>\<open>true\<close>.
\<close>

definition sort_fn :: "host \<Rightarrow> string \<Rightarrow> jsval \<Rightarrow> string option \<Rightarrow> obj \<Rightarrow> obj \<Rightarrow> error + jsval" where
  "sort_fn h key direction sortType a b =
     (let aValue = get_prop a key; bValue = get_prop b key
      in if sortType = Some ''date'' then
           (case getTime aValue of
              Inl e \<Rightarrow> Inl e
            | Inr aTime \<Rightarrow>
                (case getTime bValue of
                   Inl e \<Rightarrow> Inl e
                 | Inr bTime \<Rightarrow>
                     Inr (VNum (num_mul (num_sub (to_number aTime) (to_number bTime))
                                        (to_number direction)))))
         else if sortType = Some ''boolean'' \<or> sortType = Some ''number'' then
           Inr (VNum (num_mul (num_sub (to_number aValue) (to_number bValue))
                              (to_number direction)))
         else if sortType = Some ''string'' then
           Inr (VNum (num_mul (Fin (localeCompare h (to_string h aValue) (to_string h bValue)))
                              (to_number direction)))
         else Inr (VBool True))"

text \<open>
  The direction after the \<^verbatim>\<open>switch\<close> on \<^verbatim>\<open>String(direction).toLowerCase()\<close>;
  the default of the parameter is 1.
\<close>

definition sort_direction :: "host \<Rightarrow> jsval \<Rightarrow> jsval" where
  "sort_direction h direction =
     (let d = (if direction = VUndefined then VNum (Fin 1) else direction);
          t = toLowerCase (to_string h d)
      in if t = ''asc'' then VNum (Fin 1)
         else if t = ''desc'' then VNum (Fin (- 1))
         else d)"

text \<open>
  The key and the direction that the comparator uses: a key that starts with a minus sign
  loses its first minus sign and forces the direction \<open>-1\<close>. \<open>None\<close> is the omitted
  key, with the default \<^verbatim>\<open>"AddedDate"\<close>.
\<close>

definition effective_key :: "string option \<Rightarrow> string" where
  "effective_key key_arg =
     (let key = (case key_arg of None \<Rightarrow> ''AddedDate'' | Some k \<Rightarrow> k)
      in if prefix ''-'' key then remove1 CHR ''-'' key else key)"

definition effective_direction :: "host \<Rightarrow> string option \<Rightarrow> jsval \<Rightarrow> jsval" where
  "effective_direction h key_arg direction =
     (let key = (case key_arg of None \<Rightarrow> ''AddedDate'' | Some k \<Rightarrow> k)
      in if prefix ''-'' key then VNum (Fin (- 1)) else sort_direction h direction)"

text \<open>\<^verbatim>\<open>sort\<close> sorts the array of \<^verbatim>\<open>_breaches\<close> in place.\<close>

definition sort_op :: "host \<Rightarrow> string option \<Rightarrow> jsval \<Rightarrow> hibp \<Rightarrow> outcome" where
  "sort_op h key_arg direction s =
     (let key = effective_key key_arg;
          dir = effective_direction h key_arg direction;
          sortType = HIBP_types key
      in case array_sort (sort_fn h key dir sortType) (working s) of
           Inl e \<Rightarrow> Inl (e, s)
         | Inr xs \<Rightarrow> Inr (s\<lparr>heap := (heap s)(ref_breaches s := xs)\<rparr>))"

subsection \<open>Sequences of calls\<close>

datatype call =
    Reset
  | Filter "(obj \<Rightarrow> error + jsval) option"
  | IsFabricated jsval
  | IsRetired jsval
  | IsSensitive jsval
  | IsSpamList jsval
  | IsVerified jsval
  | HasDataClass "jsval list"
  | HasDomain jsval
  | Name "jsval list"
  | Pluck "jsval list"
  | Sort "string option" jsval

fun step :: "host \<Rightarrow> call \<Rightarrow> hibp \<Rightarrow> outcome" where
  "step h Reset s = Inr (reset s)"
| "step h (Filter fn) s = filter_op fn s"
| "step h (IsFabricated b) s = isFabricated b s"
| "step h (IsRetired b) s = isRetired b s"
| "step h (IsSensitive b) s = isSensitive b s"
| "step h (IsSpamList b) s = isSpamList b s"
| "step h (IsVerified b) s = isVerified b s"
| "step h (HasDataClass cs) s = hasDataClass h cs s"
| "step h (HasDomain d) s = hasDomain d s"
| "step h (Name ns) s = name ns s"
| "step h (Pluck ps) s = Inr (pluck h ps s)"
| "step h (Sort k d) s = sort_op h k d s"

text \<open>The state of the handle after a call, whether the call returned or threw.\<close>

definition state_of :: "outcome \<Rightarrow> hibp" where
  "state_of r = (case r of Inl (e, s) \<Rightarrow> s | Inr s \<Rightarrow> s)"

text \<open>Calls made one after the other on the same handle.\<close>

fun run :: "host \<Rightarrow> call list \<Rightarrow> hibp \<Rightarrow> hibp" where
  "run h [] s = s"
| "run h (c # cs) s = run h cs (state_of (step h c s))"

subsection \<open>Well-formed records\<close>

definition is_string :: "jsval \<Rightarrow> bool" where
  "is_string v = (case v of VStr _ \<Rightarrow> True | _ \<Rightarrow> False)"

definition is_date :: "jsval \<Rightarrow> bool" where
  "is_date v = (case v of VDate _ \<Rightarrow> True | _ \<Rightarrow> False)"

definition is_boolean :: "jsval \<Rightarrow> bool" where
  "is_boolean v = (case v of VBool _ \<Rightarrow> True | _ \<Rightarrow> False)"

definition is_integer :: "jsval \<Rightarrow> bool" where
  "is_integer v = (case v of VNum (Fin _) \<Rightarrow> True | _ \<Rightarrow> False)"

definition is_array :: "jsval \<Rightarrow> bool" where
  "is_array v = (case v of VArr _ \<Rightarrow> True | _ \<Rightarrow> False)"

text \<open>A record that has the shape of \<^verbatim>\<open>HIBP.schema\<close>.\<close>

definition well_formed :: "obj \<Rightarrow> bool" where
  "well_formed b =
     (is_string (get_prop b ''Name'') \<and>
      is_string (get_prop b ''Title'') \<and>
      is_string (get_prop b ''Domain'') \<and>
      is_date (get_prop b ''AddedDate'') \<and>
      is_date (get_prop b ''BreachDate'') \<and>
      is_date (get_prop b ''ModifiedDate'') \<and>
      is_integer (get_prop b ''PwnCount'') \<and>
      is_string (get_prop b ''Description'') \<and>
      is_string (get_prop b ''LogoPath'') \<and>
      is_array (get_prop b ''DataClasses'') \<and>
      is_boolean (get_prop b ''IsVerified'') \<and>
      is_boolean (get_prop b ''IsFabricated'') \<and>
      is_boolean (get_prop b ''IsSensitive'') \<and>
      is_boolean (get_prop b ''IsRetired'') \<and>
      is_boolean (get_prop b ''IsSpamList''))"

section \<open>Sorting with a relation\<close>

text \<open>
  The insertion sort of \<open>array_sort\<close> for a comparator that does not throw:
  \<open>lt x y\<close> says that \<open>x\<close> must come before \<open>y\<close>.
\<close>

fun insert_by :: "('a \<Rightarrow> 'a \<Rightarrow> bool) \<Rightarrow> 'a \<Rightarrow> 'a list \<Rightarrow> 'a list" where
  "insert_by lt x [] = [x]"
| "insert_by lt x (y # ys) = (if lt x y then y # insert_by lt x ys else x # y # ys)"

fun sort_by :: "('a \<Rightarrow> 'a \<Rightarrow> bool) \<Rightarrow> 'a list \<Rightarrow> 'a list \<Rightarrow> 'a list" where
  "sort_by lt acc [] = rev acc"
| "sort_by lt acc (x # xs) = sort_by lt (insert_by lt x acc) xs"

text \<open>The relation that a comparator induces, and a comparator that returns on a set.\<close>

definition precedes :: "('a \<Rightarrow> 'a \<Rightarrow> error + jsval) \<Rightarrow> 'a \<Rightarrow> 'a \<Rightarrow> bool" where
  "precedes fn x y = (case fn x y of Inl e \<Rightarrow> False | Inr v \<Rightarrow> sort_before v)"

definition returns :: "('a \<Rightarrow> 'a \<Rightarrow> error + jsval) \<Rightarrow> 'a set \<Rightarrow> bool" where
  "returns fn A = (\<forall>x\<in>A. \<forall>y\<in>A. \<exists>v. fn x y = Inr v)"

text \<open>
  Two elements compare as equal when the comparator returns 0 or NaN for them, the two
  results that \<^verbatim>\<open>Array.prototype.sort\<close> reads as "keep the order".
\<close>

definition compares_equal :: "('a \<Rightarrow> 'a \<Rightarrow> error + jsval) \<Rightarrow> 'a \<Rightarrow> 'a \<Rightarrow> bool" where
  "compares_equal fn a b =
     (case fn a b of
        Inl e \<Rightarrow> False
      | Inr v \<Rightarrow> (case to_number v of NaN \<Rightarrow> True | Fin n \<Rightarrow> n = 0))"

section \<open>Records with typed keys\<close>

text \<open>
  The value of a record at a key of \<open>HIBP_types\<close> has the type that the table declares.
  The schema validation of the loader gives every loaded record this shape, and
  \<^verbatim>\<open>filter\<close> and \<^verbatim>\<open>sort\<close> keep it.
\<close>

definition typed_at :: "string \<Rightarrow> obj \<Rightarrow> bool" where
  "typed_at key b =
     (let v = get_prop b key; t = HIBP_types key
      in if t = Some ''date'' then is_date v
         else if t = Some ''boolean'' then is_boolean v
         else if t = Some ''number'' then is_integer v
         else if t = Some ''string'' then is_string v
         else True)"

text \<open>
  The number that the comparator computes for two values of one declared type, before the
  multiplication by the direction.
\<close>

fun key_compare :: "host \<Rightarrow> jsval \<Rightarrow> jsval \<Rightarrow> int" where
  "key_compare h (VDate s) (VDate t) = s - t"
| "key_compare h (VNum (Fin m)) (VNum (Fin n)) = m - n"
| "key_compare h (VBool p) (VBool q) = (if p then 1 else 0) - (if q then 1 else 0)"
| "key_compare h (VStr x) (VStr y) = localeCompare h x y"
| "key_compare h _ _ = 0"

text \<open>
  A consistent comparator in the sense of ECMAScript: equal on equal arguments, of opposite
  signs on swapped arguments, and transitive. ECMAScript requires it of
  \<^verbatim>\<open>String.prototype.localeCompare\<close> on all strings.
\<close>

definition consistent_on :: "'a set \<Rightarrow> ('a \<Rightarrow> 'a \<Rightarrow> int) \<Rightarrow> bool" where
  "consistent_on A c =
     ((\<forall>a\<in>A. c a a = 0) \<and>
      (\<forall>a\<in>A. \<forall>b\<in>A. (c a b < 0) = (0 < c b a)) \<and>
      (\<forall>a\<in>A. \<forall>b\<in>A. \<forall>d\<in>A. c a b \<le> 0 \<and> c b d \<le> 0 \<longrightarrow> c a d \<le> 0))"

definition consistent_collation :: "(string \<Rightarrow> string \<Rightarrow> int) \<Rightarrow> bool" where
  "consistent_collation lc = consistent_on UNIV lc"

section \<open>The snapshot\<close>

text \<open>
  The snapshot holds \<open>data\<close> in an array of its own: the array was allocated before
  \<open>fresh\<close>, and \<^verbatim>\<open>_breaches\<close> refers to another array.
\<close>

definition snapshot_kept :: "obj list \<Rightarrow> hibp \<Rightarrow> bool" where
  "snapshot_kept data s =
     (original s = data \<and> ref_origBreaches s < fresh s \<and> ref_breaches s \<noteq> ref_origBreaches s)"

text \<open>The calls that keep the records as they are: all but \<^verbatim>\<open>pluck\<close>.\<close>

fun no_pluck :: "call \<Rightarrow> bool" where
  "no_pluck (Pluck ps) = False"
| "no_pluck c = True"

section \<open>Example data\<close>

text \<open>
  A collation that honours one canonical equivalence of Unicode, as ECMAScript requires of
  \<^verbatim>\<open>localeCompare\<close>: the letter e followed by the combining acute accent U+0301
  (bytes 65 CC 81) is the letter U+00E9 (bytes C3 A9). Strings are then compared byte by byte.
\<close>

fun canonical :: "string \<Rightarrow> string" where
  "canonical (a # b # c # cs) =
     (if a = CHR 0x65 \<and> b = CHR 0xCC \<and> c = CHR 0x81
      then CHR 0xC3 # CHR 0xA9 # canonical cs
      else a # canonical (b # c # cs))"
| "canonical cs = cs"

definition collate :: "string \<Rightarrow> string \<Rightarrow> int" where
  "collate a b =
     (if canonical a < canonical b then - 1 else if canonical a = canonical b then 0 else 1)"

definition example_host :: host where
  "example_host = \<lparr>localeCompare = collate, dateToString = (\<lambda>t. ''Thu Jan 01 1970'')\<rparr>"

text \<open>A record with every field of the schema.\<close>

definition breach :: "string \<Rightarrow> string \<Rightarrow> int \<Rightarrow> int \<Rightarrow> bool \<Rightarrow> string list \<Rightarrow> obj" where
  "breach n d t p v cs =
     [(''Name'', VStr n), (''Title'', VStr n), (''Domain'', VStr d),
      (''AddedDate'', VDate t), (''BreachDate'', VDate t), (''ModifiedDate'', VDate t),
      (''PwnCount'', VNum (Fin p)), (''Description'', VStr ''''), (''LogoPath'', VStr ''''),
      (''DataClasses'', VArr cs), (''IsVerified'', VBool v), (''IsFabricated'', VBool False),
      (''IsSensitive'', VBool False), (''IsRetired'', VBool False), (''IsSpamList'', VBool False)]"

definition example_breaches :: "obj list" where
  "example_breaches =
     [breach ''Adobe'' ''adobe.com'' 1386115200000 152445165 True [''email-addresses'', ''passwords''],
      breach ''MasterDeeds'' [] 1508198400000 60000000 True [''names'', ''job-titles''],
      breach ''LinkedIn'' ''linkedin.com'' 1463616000000 164611595 False [''email-addresses'']]"

text \<open>
  Two records whose names are distinct strings that are canonically equivalent: the
  precomposed and the decomposed spelling of the same word.
\<close>

definition cafe_precomposed :: obj where
  "cafe_precomposed = breach [CHR 0x43, CHR 0x61, CHR 0x66, CHR 0xC3, CHR 0xA9] ''cafe.example'' 1 10 True []"

definition cafe_decomposed :: obj where
  "cafe_decomposed = breach [CHR 0x43, CHR 0x61, CHR 0x66, CHR 0x65, CHR 0xCC, CHR 0x81] ''cafe.example'' 2 20 True []"

section \<open>Properties of the sort\<close>

subsection \<open>The insertion sort\<close>

lemma set_insert_by: "set (insert_by lt x acc) = insert x (set acc)"
  by (induction acc) auto

lemma distinct_insert_by: "distinct (insert_by lt x acc) = (x \<notin> set acc \<and> distinct acc)"
  by (induction acc) (auto simp: set_insert_by)

lemma set_sort_by: "set (sort_by lt acc xs) = set acc \<union> set xs"
  by (induction xs arbitrary: acc) (auto simp: set_insert_by)

lemma distinct_sort_by: "distinct (sort_by lt acc xs) = distinct (acc @ xs)"
proof (induction xs arbitrary: acc)
  case Nil
  then show ?case by simp
next
  case (Cons x xs)
  have "distinct (sort_by lt (insert_by lt x acc) xs) = distinct (insert_by lt x acc @ xs)"
    by (rule Cons.IH)
  also have "\<dots> = distinct (acc @ x # xs)"
    by (auto simp: distinct_insert_by set_insert_by)
  finally show ?case by simp
qed

lemma sort_insert_pure:
  "returns fn A \<Longrightarrow> x \<in> A \<Longrightarrow> set acc \<subseteq> A \<Longrightarrow>
   sort_insert fn x acc = Inr (insert_by (precedes fn) x acc)"
proof (induction acc)
  case Nil
  then show ?case by simp
next
  case (Cons y ys)
  from Cons.prems obtain v where v: "fn x y = Inr v"
    unfolding returns_def by (meson list.set_intros(1) subsetD)
  show ?case using Cons v by (simp add: precedes_def)
qed

lemma sort_loop_pure:
  "returns fn A \<Longrightarrow> set xs \<subseteq> A \<Longrightarrow> set acc \<subseteq> A \<Longrightarrow>
   sort_loop fn acc xs = Inr (sort_by (precedes fn) acc xs)"
proof (induction xs arbitrary: acc)
  case Nil
  then show ?case by simp
next
  case (Cons x xs)
  have "sort_insert fn x acc = Inr (insert_by (precedes fn) x acc)"
    using Cons.prems by (intro sort_insert_pure[of fn A]) auto
  moreover have "set (insert_by (precedes fn) x acc) \<subseteq> A"
    using Cons.prems by (simp add: set_insert_by)
  ultimately show ?case using Cons by simp
qed

lemma array_sort_pure:
  "returns fn (set xs) \<Longrightarrow> array_sort fn xs = Inr (sort_by (precedes fn) [] xs)"
  unfolding array_sort_def by (rule sort_loop_pure[of fn "set xs"]) auto

text \<open>Elements that the relation never reorders among themselves keep their order.\<close>

lemma filter_insert_by:
  assumes "\<And>y. y \<in> set acc \<Longrightarrow> P x \<Longrightarrow> P y \<Longrightarrow> \<not> lt x y"
  shows "filter P (insert_by lt x acc) = (if P x then x # filter P acc else filter P acc)"
  using assms by (induction acc) auto

lemma filter_sort_by:
  assumes "\<And>x y. x \<in> set acc \<union> set xs \<Longrightarrow> y \<in> set acc \<union> set xs \<Longrightarrow> P x \<Longrightarrow> P y \<Longrightarrow> \<not> lt x y"
  shows "filter P (sort_by lt acc xs) = rev (filter P acc) @ filter P xs"
  using assms
proof (induction xs arbitrary: acc)
  case Nil
  then show ?case by (simp add: rev_filter)
next
  case (Cons x xs)
  have f: "filter P (insert_by lt x acc) = (if P x then x # filter P acc else filter P acc)"
    by (rule filter_insert_by) (use Cons.prems in auto)
  have "filter P (sort_by lt (insert_by lt x acc) xs) =
        rev (filter P (insert_by lt x acc)) @ filter P xs"
    by (rule Cons.IH) (use Cons.prems in \<open>auto simp: set_insert_by\<close>)
  then show ?case by (simp add: f)
qed

text \<open>For a transitive relation that orders any two distinct elements, the result is sorted.\<close>

lemma sorted_insert_by:
  assumes tr: "\<And>a b c. a \<in> A \<Longrightarrow> b \<in> A \<Longrightarrow> c \<in> A \<Longrightarrow> lt a b \<Longrightarrow> lt b c \<Longrightarrow> lt a c"
    and tot: "\<And>a b. a \<in> A \<Longrightarrow> b \<in> A \<Longrightarrow> a \<noteq> b \<Longrightarrow> lt a b \<or> lt b a"
    and x: "x \<in> A"
  shows "set acc \<subseteq> A \<Longrightarrow> x \<notin> set acc \<Longrightarrow> sorted_wrt (\<lambda>a b. lt b a) acc \<Longrightarrow>
         sorted_wrt (\<lambda>a b. lt b a) (insert_by lt x acc)"
proof (induction acc)
  case Nil
  then show ?case by simp
next
  case (Cons y ys)
  have ih: "sorted_wrt (\<lambda>a b. lt b a) (insert_by lt x ys)"
    using Cons by simp
  have ys: "\<forall>z\<in>set ys. lt z y"
    using Cons.prems by simp
  show ?case
  proof (cases "lt x y")
    case True
    then show ?thesis using ih ys by (simp add: set_insert_by)
  next
    case False
    have "y \<in> A" "x \<noteq> y" using Cons.prems by auto
    then have yx: "lt y x" using tot[of x y] x False by blast
    have "lt z x" if "z \<in> set ys" for z
    proof -
      have "z \<in> A" "lt z y" using that Cons.prems by auto
      then show ?thesis using tr[of z y x] \<open>y \<in> A\<close> x yx by blast
    qed
    then show ?thesis using False yx Cons.prems by simp
  qed
qed

lemma sorted_sort_by:
  assumes tr: "\<And>a b c. a \<in> A \<Longrightarrow> b \<in> A \<Longrightarrow> c \<in> A \<Longrightarrow> lt a b \<Longrightarrow> lt b c \<Longrightarrow> lt a c"
    and tot: "\<And>a b. a \<in> A \<Longrightarrow> b \<in> A \<Longrightarrow> a \<noteq> b \<Longrightarrow> lt a b \<or> lt b a"
  shows "set acc \<union> set xs \<subseteq> A \<Longrightarrow> distinct (acc @ xs) \<Longrightarrow>
         sorted_wrt (\<lambda>a b. lt b a) acc \<Longrightarrow> sorted_wrt lt (sort_by lt acc xs)"
proof (induction xs arbitrary: acc)
  case Nil
  then show ?case by (simp add: sorted_wrt_rev)
next
  case (Cons x xs)
  have 1: "sorted_wrt (\<lambda>a b. lt b a) (insert_by lt x acc)"
  proof (rule sorted_insert_by[of A lt])
    show "x \<in> A" "set acc \<subseteq> A" "x \<notin> set acc" "sorted_wrt (\<lambda>a b. lt b a) acc"
      using Cons.prems by auto
  qed (use tr tot in blast)+
  have 2: "distinct (insert_by lt x acc @ xs)"
    using Cons.prems by (auto simp: set_insert_by distinct_insert_by)
  have 3: "set (insert_by lt x acc) \<union> set xs \<subseteq> A"
    using Cons.prems by (auto simp: set_insert_by)
  show ?case using Cons.IH[OF 3 2 1] by simp
qed

text \<open>A list in descending order comes out reversed.\<close>

lemma insert_by_last: "(\<And>y. y \<in> set acc \<Longrightarrow> lt x y) \<Longrightarrow> insert_by lt x acc = acc @ [x]"
  by (induction acc) auto

lemma sort_by_reverse:
  "sorted_wrt (\<lambda>a b. lt b a) (acc @ xs) \<Longrightarrow> sort_by lt acc xs = rev (acc @ xs)"
proof (induction xs arbitrary: acc)
  case Nil
  then show ?case by simp
next
  case (Cons x xs)
  have "insert_by lt x acc = acc @ [x]"
    by (rule insert_by_last) (use Cons.prems in \<open>simp add: sorted_wrt_append\<close>)
  then show ?case using Cons.IH[of "acc @ [x]"] Cons.prems by simp
qed

subsection \<open>The table of types\<close>

lemma HIBP_types_SomeD:
  "HIBP_types key = Some t \<Longrightarrow>
   (key, t) \<in> {(''AddedDate'', ''date''), (''BreachDate'', ''date''), (''Domain'', ''string''),
      (''IsFabricated'', ''boolean''), (''IsRetired'', ''boolean''), (''IsSensitive'', ''boolean''),
      (''IsSpamList'', ''boolean''), (''IsVerified'', ''boolean''), (''ModifiedDate'', ''date''),
      (''Name'', ''string''), (''PwnCount'', ''number'')}"
  unfolding HIBP_types_def by (drule map_of_SomeD) simp

lemma HIBP_types_range:
  "HIBP_types key = Some t \<Longrightarrow> t = ''date'' \<or> t = ''boolean'' \<or> t = ''number'' \<or> t = ''string''"
  by (drule HIBP_types_SomeD) blast

lemma HIBP_types_no_minus: "HIBP_types key = Some t \<Longrightarrow> \<not> prefix ''-'' key"
  by (drule HIBP_types_SomeD) auto

lemma typed_at_date: "HIBP_types key = Some ''date'' \<Longrightarrow> typed_at key b = is_date (get_prop b key)"
  by (simp add: typed_at_def)

lemma typed_at_boolean: "HIBP_types key = Some ''boolean'' \<Longrightarrow> typed_at key b = is_boolean (get_prop b key)"
  by (simp add: typed_at_def)

lemma typed_at_number: "HIBP_types key = Some ''number'' \<Longrightarrow> typed_at key b = is_integer (get_prop b key)"
  by (simp add: typed_at_def)

lemma typed_at_string: "HIBP_types key = Some ''string'' \<Longrightarrow> typed_at key b = is_string (get_prop b key)"
  by (simp add: typed_at_def)

lemma is_dateE: "is_date v \<Longrightarrow> \<exists>t. v = VDate t"
  by (cases v) (auto simp: is_date_def)

lemma is_booleanE: "is_boolean v \<Longrightarrow> \<exists>t. v = VBool t"
  by (cases v) (auto simp: is_boolean_def)

lemma is_stringE: "is_string v \<Longrightarrow> \<exists>t. v = VStr t"
  by (cases v) (auto simp: is_string_def)

lemma is_integerE: "is_integer v \<Longrightarrow> \<exists>t. v = VNum (Fin t)"
  by (cases v; simp add: is_integer_def split: jsnum.splits)

lemma is_arrayE: "is_array v \<Longrightarrow> \<exists>ss. v = VArr ss"
  by (cases v) (auto simp: is_array_def)

lemma well_formed_typed:
  assumes "well_formed b"
  shows "typed_at k b"
proof (cases "HIBP_types k")
  case None
  then show ?thesis by (simp add: typed_at_def)
next
  case (Some t)
  from HIBP_types_SomeD[OF Some] assms Some show ?thesis
    by (elim insertE emptyE) (simp_all add: typed_at_def well_formed_def)
qed

subsection \<open>The comparator on typed records\<close>

lemma sort_fn_typed:
  assumes t: "HIBP_types key = Some t" and a: "typed_at key a" and b: "typed_at key b"
  shows "sort_fn h key dir (Some t) a b =
         Inr (VNum (num_mul (Fin (key_compare h (get_prop a key) (get_prop b key))) (to_number dir)))"
proof -
  consider "t = ''date''" | "t = ''boolean''" | "t = ''number''" | "t = ''string''"
    using HIBP_types_range[OF t] by blast
  then show ?thesis
  proof cases
    case 1
    then obtain m n where "get_prop a key = VDate m" "get_prop b key = VDate n"
      using t a b is_dateE by (metis typed_at_date)
    then show ?thesis using 1 by (simp add: sort_fn_def)
  next
    case 2
    then obtain m n where "get_prop a key = VBool m" "get_prop b key = VBool n"
      using t a b is_booleanE by (metis typed_at_boolean)
    then show ?thesis using 2 by (simp add: sort_fn_def)
  next
    case 3
    then obtain m n where "get_prop a key = VNum (Fin m)" "get_prop b key = VNum (Fin n)"
      using t a b is_integerE by (metis typed_at_number)
    then show ?thesis using 3 by (simp add: sort_fn_def)
  next
    case 4
    then obtain m n where "get_prop a key = VStr m" "get_prop b key = VStr n"
      using t a b is_stringE by (metis typed_at_string)
    then show ?thesis using 4 by (simp add: sort_fn_def)
  qed
qed

lemma returns_typed:
  assumes "HIBP_types key = Some t" "\<forall>b\<in>A. typed_at key b"
  shows "returns (sort_fn h key dir (Some t)) A"
  unfolding returns_def using sort_fn_typed[OF assms(1)] assms(2) by blast

lemma precedes_typed:
  assumes "HIBP_types key = Some t" "typed_at key a" "typed_at key b"
  shows "precedes (sort_fn h key dir (Some t)) a b =
         (case to_number dir of NaN \<Rightarrow> False
          | Fin n \<Rightarrow> key_compare h (get_prop a key) (get_prop b key) * n < 0)"
  by (simp add: precedes_def sort_fn_typed[OF assms] sort_before_def split: jsnum.splits)

lemma compares_equal_typed:
  assumes "HIBP_types key = Some t" "typed_at key a" "typed_at key b"
  shows "compares_equal (sort_fn h key dir (Some t)) a b =
         (case to_number dir of NaN \<Rightarrow> True
          | Fin n \<Rightarrow> key_compare h (get_prop a key) (get_prop b key) * n = 0)"
  by (simp add: compares_equal_def sort_fn_typed[OF assms] split: jsnum.splits)

lemma sort_fn_returns:
  assumes "well_formed a" "well_formed b"
  shows "\<exists>v. sort_fn h k d (HIBP_types k) a b = Inr v"
proof (cases "HIBP_types k")
  case None
  then show ?thesis by (simp add: sort_fn_def)
next
  case (Some t)
  then show ?thesis
    using sort_fn_typed[OF Some well_formed_typed[OF assms(1)] well_formed_typed[OF assms(2)]]
    by simp
qed

subsection \<open>Consistent comparators\<close>

lemma consistent_on_diff: "consistent_on A (\<lambda>a b. f a - (f b :: int))"
  by (simp add: consistent_on_def)

lemma consistent_on_keys:
  "consistent_on UNIV c \<Longrightarrow> consistent_on A (\<lambda>a b. c (f a) (f b))"
  unfolding consistent_on_def by blast

lemma consistent_on_cong:
  assumes eq: "\<And>a b. a \<in> A \<Longrightarrow> b \<in> A \<Longrightarrow> c a b = c' a b" and c': "consistent_on A c'"
  shows "consistent_on A c"
  unfolding consistent_on_def
proof (intro conjI ballI impI)
  fix a assume a: "a \<in> A"
  show "c a a = 0" using c' a eq[OF a a] by (simp add: consistent_on_def)
next
  fix a b assume a: "a \<in> A" and b: "b \<in> A"
  show "(c a b < 0) = (0 < c b a)"
    using c' a b eq[OF a b] eq[OF b a] by (simp add: consistent_on_def)
next
  fix a b d assume a: "a \<in> A" and b: "b \<in> A" and d: "d \<in> A"
    and le: "c a b \<le> 0 \<and> c b d \<le> 0"
  have "c' a b \<le> 0 \<and> c' b d \<le> 0" using le eq[OF a b] eq[OF b d] by simp
  then have "c' a d \<le> 0" using c' a b d unfolding consistent_on_def by blast
  then show "c a d \<le> 0" using eq[OF a d] by simp
qed

lemma consistent_on_linorder:
  "consistent_on A (\<lambda>a b. if f a < f b then - 1 else if f a = f b then 0 else (1::int))"
  for f :: "'a \<Rightarrow> 'b::linorder"
  unfolding consistent_on_def by auto

lemma key_compare_consistent:
  assumes t: "HIBP_types key = Some t" and A: "\<forall>b\<in>A. typed_at key b"
    and lc: "consistent_collation (localeCompare h)"
  shows "consistent_on A (\<lambda>a b. key_compare h (get_prop a key) (get_prop b key))"
proof -
  consider "t = ''date''" | "t = ''boolean''" | "t = ''number''" | "t = ''string''"
    using HIBP_types_range[OF t] by blast
  then show ?thesis
  proof cases
    case 1
    then have "\<forall>b\<in>A. \<exists>n. get_prop b key = VDate n"
      using t A is_dateE by (metis typed_at_date)
    then obtain f where f: "\<And>b. b \<in> A \<Longrightarrow> get_prop b key = VDate (f b)"
      by metis
    show ?thesis
      by (rule consistent_on_cong[OF _ consistent_on_diff[of A f]]) (simp add: f)
  next
    case 2
    then have "\<forall>b\<in>A. \<exists>n. get_prop b key = VBool n"
      using t A is_booleanE by (metis typed_at_boolean)
    then obtain f where f: "\<And>b. b \<in> A \<Longrightarrow> get_prop b key = VBool (f b)"
      by metis
    show ?thesis
      by (rule consistent_on_cong[OF _ consistent_on_diff[of A "\<lambda>b. if f b then 1 else 0"]])
         (simp add: f)
  next
    case 3
    then have "\<forall>b\<in>A. \<exists>n. get_prop b key = VNum (Fin n)"
      using t A is_integerE by (metis typed_at_number)
    then obtain f where f: "\<And>b. b \<in> A \<Longrightarrow> get_prop b key = VNum (Fin (f b))"
      by metis
    show ?thesis
      by (rule consistent_on_cong[OF _ consistent_on_diff[of A f]]) (simp add: f)
  next
    case 4
    then have "\<forall>b\<in>A. \<exists>n. get_prop b key = VStr n"
      using t A is_stringE by (metis typed_at_string)
    then obtain f where f: "\<And>b. b \<in> A \<Longrightarrow> get_prop b key = VStr (f b)"
      by metis
    have "consistent_on A (\<lambda>a b. localeCompare h (f a) (f b))"
      using lc unfolding consistent_collation_def by (rule consistent_on_keys)
    then show ?thesis
      by (rule consistent_on_cong[rotated]) (simp add: f)
  qed
qed

lemma consistent_zero_sym:
  "consistent_on A c \<Longrightarrow> a \<in> A \<Longrightarrow> b \<in> A \<Longrightarrow> c a b = 0 \<Longrightarrow> c b a = 0"
  unfolding consistent_on_def by (metis less_irrefl linorder_neqE_linordered_idom)

lemma consistent_zero_trans:
  assumes "consistent_on A c" "a \<in> A" "b \<in> A" "d \<in> A" "c a d = 0" "c b d = 0"
  shows "c a b = 0"
proof -
  have db: "c d b = 0" using consistent_zero_sym[OF assms(1) assms(3,4,6)] .
  have da: "c d a = 0" using consistent_zero_sym[OF assms(1) assms(2,4,5)] .
  have "c a b \<le> 0" using assms db unfolding consistent_on_def by (metis order_refl)
  moreover have "c b a \<le> 0" using assms da unfolding consistent_on_def by (metis order_refl)
  ultimately show ?thesis using assms(1,2,3) unfolding consistent_on_def
    by (metis linorder_not_le order_le_less)
qed

lemma consistent_less_trans:
  assumes "consistent_on A c" "a \<in> A" "b \<in> A" "d \<in> A" "c a b < 0" "c b d < 0"
  shows "c a d < 0"
proof (rule ccontr)
  assume "\<not> c a d < 0"
  then have "c d a \<le> 0" using assms(1,2,4) unfolding consistent_on_def
    by (metis linorder_not_le)
  moreover have "c a b \<le> 0" using assms(5) by simp
  ultimately have "c d b \<le> 0" using assms(1-4) unfolding consistent_on_def by blast
  then show False using assms(1,3,4,6) unfolding consistent_on_def
    by (metis linorder_not_le)
qed

lemma equal_never_precedes:
  assumes c: "consistent_on A c" and "x \<in> A" "y \<in> A" "z \<in> A"
    and "c x z * n = 0" "c y z * n = 0"
  shows "\<not> c x y * n < (0::int)"
proof (cases "n = 0")
  case True
  then show ?thesis by simp
next
  case False
  then have "c x z = 0" "c y z = 0" using assms by auto
  then have "c x y = 0" using consistent_zero_trans[OF c assms(2,3,4)] by simp
  then show ?thesis by simp
qed

lemma key_compare_nonzero:
  assumes t: "HIBP_types key = Some t" and a: "typed_at key a" and b: "typed_at key b"
    and ne: "get_prop a key \<noteq> get_prop b key"
    and sep: "\<And>x y. get_prop a key = VStr x \<Longrightarrow> get_prop b key = VStr y \<Longrightarrow> x \<noteq> y \<Longrightarrow>
                localeCompare h x y \<noteq> 0"
  shows "key_compare h (get_prop a key) (get_prop b key) \<noteq> 0"
proof -
  consider "t = ''date''" | "t = ''boolean''" | "t = ''number''" | "t = ''string''"
    using HIBP_types_range[OF t] by blast
  then show ?thesis
  proof cases
    case 1
    then obtain m n where "get_prop a key = VDate m" "get_prop b key = VDate n"
      using t a b is_dateE by (metis typed_at_date)
    then show ?thesis using ne by simp
  next
    case 2
    then obtain m n where "get_prop a key = VBool m" "get_prop b key = VBool n"
      using t a b is_booleanE by (metis typed_at_boolean)
    then show ?thesis using ne by simp
  next
    case 3
    then obtain m n where "get_prop a key = VNum (Fin m)" "get_prop b key = VNum (Fin n)"
      using t a b is_integerE by (metis typed_at_number)
    then show ?thesis using ne by simp
  next
    case 4
    then obtain m n where mn: "get_prop a key = VStr m" "get_prop b key = VStr n"
      using t a b is_stringE by (metis typed_at_string)
    then have "m \<noteq> n" using ne by simp
    then show ?thesis using sep[OF mn] mn by simp
  qed
qed

lemma collate_consistent: "consistent_collation (localeCompare example_host)"
proof -
  have "localeCompare example_host = (\<lambda>a b. if canonical a < canonical b then - 1 else if canonical a = canonical b then 0 else 1)"
    by (simp add: example_host_def collate_def fun_eq_iff)
  then show ?thesis unfolding consistent_collation_def by (simp only: consistent_on_linorder)
qed

subsection \<open>The key and the direction\<close>

lemma sort_direction_default: "sort_direction h VUndefined = VNum (Fin 1)"
  by (simp add: sort_direction_def int_to_string_def toLowerCase_def lower_char_def)

lemma effective_key_plain: "\<not> prefix ''-'' key \<Longrightarrow> effective_key (Some key) = key"
  by (simp add: effective_key_def)

lemma effective_direction_plain: "\<not> prefix ''-'' key \<Longrightarrow> effective_direction h (Some key) d = sort_direction h d"
  by (simp add: effective_direction_def)

lemma effective_key_minus: "effective_key (Some (CHR ''-'' # key)) = key"
  by (simp add: effective_key_def)

lemma effective_direction_minus: "effective_direction h (Some (CHR ''-'' # key)) d = VNum (Fin (- 1))"
  by (simp add: effective_direction_def)

subsection \<open>The method sort\<close>

lemma working_sorted: "working (s\<lparr>heap := (heap s)(ref_breaches s := xs)\<rparr>) = xs"
  by (simp add: working_def)

lemma sort_op_typed:
  assumes "HIBP_types (effective_key k) = Some t" "\<forall>b\<in>set (working s). typed_at (effective_key k) b"
  shows "sort_op h k d s =
     Inr (s\<lparr>heap := (heap s)(ref_breaches s :=
            sort_by (precedes (sort_fn h (effective_key k) (effective_direction h k d) (Some t))) [] (working s))\<rparr>)"
  using array_sort_pure[OF returns_typed[OF assms, of h "effective_direction h k d"]] assms(1)
  by (simp add: sort_op_def Let_def)

lemma sort_op_returns:
  assumes "\<forall>b\<in>set (working s). well_formed b"
  shows "\<exists>s'. sort_op h k d s = Inr s'"
proof -
  have "returns (sort_fn h (effective_key k) (effective_direction h k d) (HIBP_types (effective_key k)))
          (set (working s))"
    unfolding returns_def using sort_fn_returns assms by blast
  then have "\<exists>xs. array_sort (sort_fn h (effective_key k) (effective_direction h k d)
                       (HIBP_types (effective_key k))) (working s) = Inr xs"
    using array_sort_pure by blast
  then show ?thesis by (auto simp: sort_op_def Let_def)
qed

section \<open>Properties of the filters\<close>

lemma array_filter_pure:
  "(\<And>x. x \<in> set xs \<Longrightarrow> fn x = Inr (VBool (P x))) \<Longrightarrow> array_filter fn xs = Inr (filter P xs)"
  by (induction xs) auto

lemma array_filter_returns:
  "(\<And>x. x \<in> set xs \<Longrightarrow> \<exists>v. fn x = Inr v) \<Longrightarrow>
   \<exists>ys. array_filter fn xs = Inr ys \<and> set ys \<subseteq> set xs"
proof (induction xs)
  case Nil
  then show ?case by simp
next
  case (Cons x xs)
  obtain v where v: "fn x = Inr v" using Cons.prems by auto
  obtain ys where ys: "array_filter fn xs = Inr ys" "set ys \<subseteq> set xs"
    using Cons by auto
  show ?case using v ys by auto
qed

lemma working_assign_breaches: "working (assign_breaches xs s) = xs"
  by (simp add: working_def assign_breaches_def)

lemma filter_op_pure:
  assumes "\<And>x. x \<in> set (working s) \<Longrightarrow> fn x = Inr (VBool (P x))"
  shows "filter_op (Some fn) s = Inr (assign_breaches (filter P (working s)) s)"
  using array_filter_pure [of "working s" fn P] assms by (simp add: filter_op_def)

lemma filter_op_returns:
  assumes "\<And>x. x \<in> set (working s) \<Longrightarrow> \<exists>v. fn x = Inr v"
  shows "\<exists>s'. filter_op (Some fn) s = Inr s'"
proof -
  obtain ys where "array_filter fn (working s) = Inr ys"
    using array_filter_returns[of "working s" fn] assms by blast
  then show ?thesis by (simp add: filter_op_def)
qed

lemma filter_op_subset:
  assumes "\<And>x. x \<in> set (working s) \<Longrightarrow> \<exists>v. fn x = Inr v"
  shows "\<exists>s'. filter_op (Some fn) s = Inr s' \<and> set (working s') \<subseteq> set (working s)"
proof -
  obtain ys where "array_filter fn (working s) = Inr ys" "set ys \<subseteq> set (working s)"
    using array_filter_returns[of "working s" fn] assms by blast
  then show ?thesis by (simp add: filter_op_def working_assign_breaches)
qed

lemma filter_op_default: "\<exists>s'. filter_op None s = Inr s'"
proof -
  have "array_filter (\<lambda>_. Inr (VBool True)) (working s) = Inr (filter (\<lambda>_. True) (working s))"
    by (rule array_filter_pure) simp
  then show ?thesis by (simp add: filter_op_def)
qed

lemma filter_op_Inl: "filter_op fn s = Inl (e, s') \<Longrightarrow> s' = s"
  by (auto simp: filter_op_def Let_def split: sum.splits)

lemma strict_eq_VStr: "strict_eq v (VStr d) = (v = VStr d)"
  by (cases v) auto

lemma array_includes_strings: "array_includes (map VStr ss) (VStr c) = (c \<in> set ss)"
  by (induction ss) (auto simp: array_includes_def)

lemma includes_method_returns: "is_array v \<Longrightarrow> \<exists>r. includes_method h v x = Inr r"
  using is_arrayE[of v] by auto

lemma hasDataClass_loop_strings:
  "\<forall>b\<in>set (working s). is_array (get_prop b ''DataClasses'') \<Longrightarrow>
   \<exists>s'. hasDataClass_loop h (map VStr cs) s = Inr s' \<and>
        working s' =
          filter (\<lambda>b. \<exists>ss. get_prop b ''DataClasses'' = VArr ss \<and> set cs \<subseteq> set ss) (working s)"
proof (induction cs arbitrary: s)
  case Nil
  have "filter (\<lambda>b. \<exists>ss. get_prop b ''DataClasses'' = VArr ss) (working s) = working s"
    using Nil is_arrayE by (intro filter_True) blast
  then show ?case by simp
next
  case (Cons c cs)
  let ?P = "\<lambda>b. \<exists>ss. get_prop b ''DataClasses'' = VArr ss \<and> c \<in> set ss"
  let ?s1 = "assign_breaches (filter ?P (working s)) s"
  have "filter_op (Some (\<lambda>breach. includes_method h (get_prop breach ''DataClasses'') (VStr c))) s =
        Inr ?s1"
  proof (rule filter_op_pure)
    fix x assume "x \<in> set (working s)"
    then obtain ss where "get_prop x ''DataClasses'' = VArr ss"
      using Cons.prems is_arrayE by blast
    then show "includes_method h (get_prop x ''DataClasses'') (VStr c) = Inr (VBool (?P x))"
      by (simp add: array_includes_strings)
  qed
  moreover have "\<forall>b\<in>set (working ?s1). is_array (get_prop b ''DataClasses'')"
    using Cons.prems by (simp add: working_assign_breaches)
  then obtain s' where "hasDataClass_loop h (map VStr cs) ?s1 = Inr s'"
    "working s' = filter (\<lambda>b. \<exists>ss. get_prop b ''DataClasses'' = VArr ss \<and> set cs \<subseteq> set ss)
                    (working ?s1)"
    using Cons.IH[of ?s1] by blast
  moreover have "filter (\<lambda>b. \<exists>ss. get_prop b ''DataClasses'' = VArr ss \<and> set cs \<subseteq> set ss)
                    (filter ?P (working s)) =
                 filter (\<lambda>b. \<exists>ss. get_prop b ''DataClasses'' = VArr ss \<and> set (c # cs) \<subseteq> set ss)
                    (working s)"
    by (auto intro: filter_cong)
  ultimately show ?case by (simp add: working_assign_breaches)
qed

lemma hasDataClass_loop_returns:
  "\<forall>b\<in>set (working s). is_array (get_prop b ''DataClasses'') \<Longrightarrow>
   \<exists>s'. hasDataClass_loop h dcs s = Inr s'"
proof (induction dcs arbitrary: s)
  case Nil
  then show ?case by simp
next
  case (Cons dc dcs)
  obtain s1 where s1: "filter_op (Some (\<lambda>breach. includes_method h (get_prop breach ''DataClasses'') dc)) s = Inr s1"
    "set (working s1) \<subseteq> set (working s)"
    using filter_op_subset[of s "\<lambda>breach. includes_method h (get_prop breach ''DataClasses'') dc"]
      Cons.prems includes_method_returns by blast
  then have "\<forall>b\<in>set (working s1). is_array (get_prop b ''DataClasses'')"
    using Cons.prems by blast
  then show ?case using Cons.IH[of s1] s1 by simp
qed

lemma boolProp_returns: "\<exists>s'. boolProp n b s = Inr s'"
  unfolding boolProp_def by (rule filter_op_returns) simp

lemma hasDomain_returns: "\<exists>s'. hasDomain d s = Inr s'"
  unfolding hasDomain_def Let_def by (rule filter_op_returns) simp

lemma name_returns: "\<exists>s'. name ns s = Inr s'"
  unfolding name_def Let_def by (rule filter_op_returns) simp

section \<open>The snapshot is kept\<close>

lemma snapshot_getBreaches: "snapshot_kept data (getBreaches data)"
  by (simp add: snapshot_kept_def getBreaches_def original_def)

lemma snapshot_assign: "snapshot_kept data s \<Longrightarrow> snapshot_kept data (assign_breaches xs s)"
  by (auto simp: snapshot_kept_def assign_breaches_def original_def)

lemma snapshot_sorted:
  "snapshot_kept data s \<Longrightarrow> snapshot_kept data (s\<lparr>heap := (heap s)(ref_breaches s := xs)\<rparr>)"
  by (auto simp: snapshot_kept_def original_def)

lemma snapshot_filter_op: "snapshot_kept data s \<Longrightarrow> snapshot_kept data (state_of (filter_op fn s))"
  by (auto simp: filter_op_def state_of_def Let_def snapshot_assign split: sum.splits)

lemma snapshot_sort_op: "snapshot_kept data s \<Longrightarrow> snapshot_kept data (state_of (sort_op h k d s))"
  by (auto simp: sort_op_def state_of_def Let_def snapshot_sorted split: sum.splits)

lemma snapshot_hasDataClass_loop:
  "snapshot_kept data s \<Longrightarrow> snapshot_kept data (state_of (hasDataClass_loop h dcs s))"
proof (induction dcs arbitrary: s)
  case Nil
  then show ?case by (simp add: state_of_def)
next
  case (Cons dc dcs)
  let ?r = "filter_op (Some (\<lambda>breach. includes_method h (get_prop breach ''DataClasses'') dc)) s"
  show ?case
  proof (cases ?r)
    case (Inl p)
    then have "snd p = s" using filter_op_Inl[of _ s "fst p" "snd p"] by simp
    then show ?thesis using Inl Cons.prems by (auto simp: state_of_def split: prod.splits)
  next
    case (Inr s1)
    then have "snapshot_kept data s1"
      using snapshot_filter_op[OF Cons.prems, of "Some (\<lambda>breach. includes_method h (get_prop breach ''DataClasses'') dc)"]
      by (simp add: state_of_def)
    then show ?thesis using Inr Cons.IH by simp
  qed
qed

lemma snapshot_step: "snapshot_kept data s \<Longrightarrow> snapshot_kept data (state_of (step h c s))"
proof (cases c)
  case Reset
  assume "snapshot_kept data s"
  then show ?thesis using Reset by (simp add: state_of_def reset_def snapshot_assign)
next
  case (Pluck ps)
  assume "snapshot_kept data s"
  then show ?thesis using Pluck by (simp add: state_of_def pluck_def snapshot_assign)
qed (simp_all add: isFabricated_def isRetired_def isSensitive_def isSpamList_def isVerified_def
       boolProp_def hasDomain_def name_def hasDataClass_def Let_def
       snapshot_filter_op snapshot_sort_op snapshot_hasDataClass_loop)

lemma snapshot_run: "snapshot_kept data s \<Longrightarrow> snapshot_kept data (run h calls s)"
  by (induction calls arbitrary: s) (simp_all add: snapshot_step)

section \<open>Well-formed records are kept\<close>

text \<open>
  After a load of well-formed records, the working set stays well formed under every call
  but \<^verbatim>\<open>pluck\<close>: filters keep some of the records, \<^verbatim>\<open>sort\<close> reorders
  them and \<^verbatim>\<open>reset\<close> brings the loaded ones back.
\<close>

lemma array_filter_subset: "array_filter fn xs = Inr ys \<Longrightarrow> set ys \<subseteq> set xs"
proof (induction xs arbitrary: ys)
  case Nil
  then show ?case by simp
next
  case (Cons x xs)
  then show ?case by (auto split: sum.splits if_splits)
qed

lemma well_formed_filter_op:
  assumes "\<forall>b\<in>set (working s). well_formed b"
  shows "\<forall>b\<in>set (working (state_of (filter_op fn s))). well_formed b"
proof (cases "filter_op fn s")
  case (Inl p)
  then have "snd p = s" using filter_op_Inl[of fn s "fst p" "snd p"] by simp
  then show ?thesis using Inl assms by (auto simp: state_of_def split: prod.splits)
next
  case (Inr s')
  then obtain ys where "array_filter (case fn of None \<Rightarrow> (\<lambda>_. Inr (VBool True)) | Some f \<Rightarrow> f)
      (working s) = Inr ys" "s' = assign_breaches ys s"
    by (auto simp: filter_op_def Let_def split: sum.splits)
  then show ?thesis
    using Inr assms array_filter_subset
    by (fastforce simp: state_of_def working_assign_breaches)
qed

lemma well_formed_hasDataClass_loop:
  "\<forall>b\<in>set (working s). well_formed b \<Longrightarrow>
   \<forall>b\<in>set (working (state_of (hasDataClass_loop h dcs s))). well_formed b"
proof (induction dcs arbitrary: s)
  case Nil
  then show ?case by (simp add: state_of_def)
next
  case (Cons dc dcs)
  let ?fn = "Some (\<lambda>breach. includes_method h (get_prop breach ''DataClasses'') dc)"
  show ?case
  proof (cases "filter_op ?fn s")
    case (Inl p)
    then have "snd p = s" using filter_op_Inl[of ?fn s "fst p" "snd p"] by simp
    then show ?thesis using Inl Cons.prems by (auto simp: state_of_def split: prod.splits)
  next
    case (Inr s1)
    then have "\<forall>b\<in>set (working s1). well_formed b"
      using well_formed_filter_op[OF Cons.prems, of ?fn] by (simp add: state_of_def)
    then show ?thesis using Inr Cons.IH by simp
  qed
qed

lemma well_formed_sort_op:
  assumes "\<forall>b\<in>set (working s). well_formed b"
  shows "\<forall>b\<in>set (working (state_of (sort_op h k d s))). well_formed b"
proof (cases "HIBP_types (effective_key k)")
  case None
  have "returns (sort_fn h (effective_key k) (effective_direction h k d) None) (set (working s))"
    unfolding returns_def by (simp add: sort_fn_def)
  from array_sort_pure[OF this] have "sort_op h k d s =
      Inr (s\<lparr>heap := (heap s)(ref_breaches s :=
        sort_by (precedes (sort_fn h (effective_key k) (effective_direction h k d) None)) []
          (working s))\<rparr>)"
    using None by (simp add: sort_op_def Let_def)
  then show ?thesis using assms by (simp add: state_of_def working_sorted set_sort_by)
next
  case (Some t)
  have "\<forall>b\<in>set (working s). typed_at (effective_key k) b"
    using assms well_formed_typed by blast
  then show ?thesis
    using assms sort_op_typed[OF Some, of s h d]
    by (simp add: state_of_def working_sorted set_sort_by)
qed

lemma well_formed_boolProp:
  "\<forall>b\<in>set (working s). well_formed b \<Longrightarrow>
   \<forall>b\<in>set (working (state_of (boolProp n v s))). well_formed b"
  unfolding boolProp_def by (rule well_formed_filter_op)

lemma well_formed_step:
  assumes k: "snapshot_kept data s" and d: "\<forall>b\<in>set data. well_formed b"
    and w: "\<forall>b\<in>set (working s). well_formed b" and c: "no_pluck c"
  shows "\<forall>b\<in>set (working (state_of (step h c s))). well_formed b"
proof (cases c)
  case Reset
  then show ?thesis using k d
    by (simp add: state_of_def reset_def working_assign_breaches snapshot_kept_def)
next
  case (Filter fn)
  then show ?thesis using well_formed_filter_op[OF w] by simp
next
  case (IsFabricated v)
  then show ?thesis using well_formed_boolProp[OF w] by (simp add: isFabricated_def)
next
  case (IsRetired v)
  then show ?thesis using well_formed_boolProp[OF w] by (simp add: isRetired_def)
next
  case (IsSensitive v)
  then show ?thesis using well_formed_boolProp[OF w] by (simp add: isSensitive_def)
next
  case (IsSpamList v)
  then show ?thesis using well_formed_boolProp[OF w] by (simp add: isSpamList_def)
next
  case (IsVerified v)
  then show ?thesis using well_formed_boolProp[OF w] by (simp add: isVerified_def)
next
  case (HasDataClass cs)
  then show ?thesis using well_formed_hasDataClass_loop[OF w] by (simp add: hasDataClass_def)
next
  case (HasDomain v)
  then show ?thesis using well_formed_filter_op[OF w] by (simp add: hasDomain_def Let_def)
next
  case (Name ns)
  then show ?thesis using well_formed_filter_op[OF w] by (simp add: name_def Let_def)
next
  case (Pluck ps)
  then show ?thesis using c by simp
next
  case (Sort k' d')
  then show ?thesis using well_formed_sort_op[OF w] by simp
qed

lemma well_formed_run:
  "snapshot_kept data s \<Longrightarrow> \<forall>b\<in>set data. well_formed b \<Longrightarrow>
   \<forall>b\<in>set (working s). well_formed b \<Longrightarrow> list_all no_pluck calls \<Longrightarrow>
   \<forall>b\<in>set (working (run h calls s)). well_formed b"
proof (induction calls arbitrary: s)
  case Nil
  then show ?case by simp
next
  case (Cons c cs)
  have np: "no_pluck c" "list_all no_pluck cs" using Cons.prems(4) by simp_all
  have 1: "snapshot_kept data (state_of (step h c s))"
    by (rule snapshot_step[OF Cons.prems(1)])
  have 2: "\<forall>b\<in>set (working (state_of (step h c s))). well_formed b"
    by (rule well_formed_step[OF Cons.prems(1,2,3) np(1)])
  show ?case using Cons.IH[OF 1 Cons.prems(2) 2 np(2)] by simp
qed

lemma well_formed_kept:
  assumes "\<forall>b\<in>set data. well_formed b" "list_all no_pluck calls"
  shows "\<forall>b\<in>set (working (run h calls (getBreaches data))). well_formed b"
proof (rule well_formed_run[OF snapshot_getBreaches assms(1) _ assms(2)])
  show "\<forall>b\<in>set (working (getBreaches data)). well_formed b"
    using assms(1) by (simp add: getBreaches_def working_def)
qed

section \<open>Evaluation of the examples\<close>

lemmas example_defs =
  example_breaches_def breach_def getBreaches_def working_def get_prop_def

lemmas sort_eval_defs =
  sort_op_def array_sort_def sort_fn_def effective_key_def effective_direction_def
  sort_direction_def HIBP_types_def state_of_def int_to_string_def toLowerCase_def
  lower_char_def sort_before_def example_host_def collate_def
  cafe_precomposed_def cafe_decomposed_def breach_def getBreaches_def working_def get_prop_def

section \<open>The claims\<close>

text \<open>
  Claim C1, as amended. Take a working set whose records have, at a key of the table, values
  of the declared type that are pairwise distinct and, for a string key, pairwise told apart
  by \<^verbatim>\<open>localeCompare\<close> (it never returns 0 on two of them), on a host whose
  \<^verbatim>\<open>localeCompare\<close> is a consistent comparator. Then \<^verbatim>\<open>sort(key)\<close>
  followed by \<^verbatim>\<open>sort("-" + key)\<close>, whatever the direction argument of the second
  call, yields exactly the reverse of the working set after the first call.
\<close>

theorem sort_then_reverse:
  assumes lc: "consistent_collation (localeCompare h)"
    and t: "HIBP_types key = Some t"
    and ty: "\<forall>b\<in>set (working s). typed_at key b"
    and dist: "distinct (map (\<lambda>b. get_prop b key) (working s))"
    and sep: "\<forall>a\<in>set (working s). \<forall>b\<in>set (working s). \<forall>x y.
                get_prop a key = VStr x \<and> get_prop b key = VStr y \<and> x \<noteq> y \<longrightarrow>
                localeCompare h x y \<noteq> 0"
  shows "\<exists>s1 s2. sort_op h (Some key) VUndefined s = Inr s1 \<and>
                  sort_op h (Some (''-'' @ key)) direction s1 = Inr s2 \<and>
                  working s2 = rev (working s1)"
proof -
  let ?A = "set (working s)"
  let ?c = "\<lambda>a b. key_compare h (get_prop a key) (get_prop b key)"
  let ?up = "precedes (sort_fn h key (VNum (Fin 1)) (Some t))"
  let ?down = "precedes (sort_fn h key (VNum (Fin (- 1))) (Some t))"
  let ?L = "sort_by ?up [] (working s)"
  let ?s1 = "s\<lparr>heap := (heap s)(ref_breaches s := ?L)\<rparr>"
  have nm: "\<not> prefix ''-'' key" by (rule HIBP_types_no_minus[OF t])
  have c: "consistent_on ?A ?c" by (rule key_compare_consistent[OF t ty lc])
  have up: "?up a b = (?c a b < 0)" if "a \<in> ?A" "b \<in> ?A" for a b
    using that ty by (simp add: precedes_typed[OF t])
  have down: "?down a b = (0 < ?c a b)" if "a \<in> ?A" "b \<in> ?A" for a b
    using that ty by (simp add: precedes_typed[OF t])
  have nz: "?c a b \<noteq> 0" if "a \<in> ?A" "b \<in> ?A" "a \<noteq> b" for a b
  proof (rule key_compare_nonzero[OF t])
    show "typed_at key a" "typed_at key b" using that ty by auto
    show "get_prop a key \<noteq> get_prop b key"
      using dist that by (auto simp: distinct_map inj_on_def)
    show "localeCompare h x y \<noteq> 0"
      if "get_prop a key = VStr x" "get_prop b key = VStr y" "x \<noteq> y" for x y
      using sep \<open>a \<in> ?A\<close> \<open>b \<in> ?A\<close> that by blast
  qed
  have anti: "(?c a b < 0) = (0 < ?c b a)" if "a \<in> ?A" "b \<in> ?A" for a b
    using c that unfolding consistent_on_def by blast
  have s1: "sort_op h (Some key) VUndefined s = Inr ?s1"
    using sort_op_typed[of "Some key" t s h VUndefined] t ty nm
    by (simp add: effective_key_plain effective_direction_plain sort_direction_default)
  have w1: "working ?s1 = ?L" by (rule working_sorted)
  have setL: "set ?L = ?A" by (simp add: set_sort_by)
  have sorted: "sorted_wrt ?up ?L"
  proof (rule sorted_sort_by[of ?A])
    fix a b d assume "a \<in> ?A" "b \<in> ?A" "d \<in> ?A" "?up a b" "?up b d"
    then show "?up a d"
      using consistent_less_trans[OF c, of a b d] by (simp add: up)
  next
    fix a b assume ab: "a \<in> ?A" "b \<in> ?A" "a \<noteq> b"
    then have "?c a b < 0 \<or> 0 < ?c a b" using nz[of a b] by linarith
    then show "?up a b \<or> ?up b a" using ab anti[of b a] by (auto simp: up)
  next
    show "distinct ([] @ working s)" using dist by (simp add: distinct_map)
  qed simp_all
  have "sorted_wrt (\<lambda>a b. ?down b a) ([] @ ?L)"
  proof -
    have "sorted_wrt (\<lambda>a b. ?down b a) ?L"
    proof (rule sorted_wrt_mono_rel[OF _ sorted])
      fix a b assume "a \<in> set ?L" "b \<in> set ?L" "?up a b"
      then show "?down b a" using anti[of a b] by (simp add: setL up down)
    qed
    then show ?thesis by simp
  qed
  then have rev: "sort_by ?down [] ?L = rev ?L"
    using sort_by_reverse[of ?down "[]" ?L] by simp
  have ty1: "\<forall>b\<in>set (working ?s1). typed_at (effective_key (Some (CHR ''-'' # key))) b"
    using ty by (simp add: w1 setL effective_key_minus)
  have t1: "HIBP_types (effective_key (Some (CHR ''-'' # key))) = Some t"
    using t by (simp add: effective_key_minus)
  have "sort_op h (Some (CHR ''-'' # key)) direction ?s1 =
          Inr (?s1\<lparr>heap := (heap ?s1)(ref_breaches ?s1 := sort_by ?down [] (working ?s1))\<rparr>)"
    using sort_op_typed[OF t1 ty1, of h direction]
    by (simp only: effective_key_minus effective_direction_minus)
  then have "sort_op h (Some (''-'' @ key)) direction ?s1 = Inr (?s1\<lparr>heap := (heap ?s1)(ref_breaches ?s1 := rev ?L)\<rparr>)"
    by (simp add: w1 rev)
  moreover have "working (?s1\<lparr>heap := (heap ?s1)(ref_breaches ?s1 := rev ?L)\<rparr>) = rev (working ?s1)"
    by (simp add: working_def)
  ultimately show ?thesis using s1 by blast
qed

text \<open>Claim C1, the amended statement on the example data, sorted by \<^verbatim>\<open>Name\<close>.\<close>

theorem sort_then_reverse_witness:
  "consistent_collation (localeCompare example_host) \<and>
   HIBP_types ''Name'' = Some ''string'' \<and>
   list_all (typed_at ''Name'') (working (getBreaches example_breaches)) \<and>
   distinct (map (\<lambda>b. get_prop b ''Name'') (working (getBreaches example_breaches))) \<and>
   (\<exists>s1 s2. sort_op example_host (Some ''Name'') VUndefined (getBreaches example_breaches) = Inr s1 \<and>
      sort_op example_host (Some (''-'' @ ''Name'')) VUndefined s1 = Inr s2 \<and>
      working s2 = rev (working s1))"
proof -
  have h1: "consistent_collation (localeCompare example_host)" by (rule collate_consistent)
  have h2: "HIBP_types ''Name'' = Some ''string''" by (simp add: HIBP_types_def)
  have h3: "\<forall>b\<in>set (working (getBreaches example_breaches)). typed_at ''Name'' b"
    by (simp add: example_defs typed_at_def HIBP_types_def is_string_def)
  have h4: "distinct (map (\<lambda>b. get_prop b ''Name'') (working (getBreaches example_breaches)))"
    by (simp add: example_defs)
  have h5: "\<forall>a\<in>set (working (getBreaches example_breaches)).
            \<forall>b\<in>set (working (getBreaches example_breaches)). \<forall>x y.
              get_prop a ''Name'' = VStr x \<and> get_prop b ''Name'' = VStr y \<and> x \<noteq> y \<longrightarrow>
              localeCompare example_host x y \<noteq> 0"
    by (simp add: example_defs example_host_def collate_def)
  show ?thesis
    using h1 h2 h3 h4 sort_then_reverse[OF h1 h2 h3 h4 h5, of VUndefined]
    by (simp add: list_all_iff)
qed

text \<open>
  Claim C1 as stated fails. The two records are well formed and their names are distinct
  strings, but the collation returns 0 for them: both calls return and leave the order as
  it is, so the second working set is not the reverse of the first.
\<close>

theorem sort_then_reverse_counterexample:
  "well_formed cafe_precomposed \<and> well_formed cafe_decomposed \<and>
   get_prop cafe_precomposed ''Name'' \<noteq> get_prop cafe_decomposed ''Name'' \<and>
   HIBP_types ''Name'' = Some ''string'' \<and>
   \<not> isl (sort_op example_host (Some ''Name'') VUndefined
            (getBreaches [cafe_precomposed, cafe_decomposed])) \<and>
   \<not> isl (sort_op example_host (Some ''-Name'') VUndefined
            (state_of (sort_op example_host (Some ''Name'') VUndefined
               (getBreaches [cafe_precomposed, cafe_decomposed])))) \<and>
   working (state_of (sort_op example_host (Some ''-Name'') VUndefined
      (state_of (sort_op example_host (Some ''Name'') VUndefined
         (getBreaches [cafe_precomposed, cafe_decomposed]))))) \<noteq>
   rev (working (state_of (sort_op example_host (Some ''Name'') VUndefined
      (getBreaches [cafe_precomposed, cafe_decomposed]))))"
proof -
  have wf: "well_formed cafe_precomposed" "well_formed cafe_decomposed"
    by (simp_all add: well_formed_def cafe_precomposed_def cafe_decomposed_def breach_def
          get_prop_def is_string_def is_date_def is_integer_def is_array_def is_boolean_def)
  have ne: "get_prop cafe_precomposed ''Name'' \<noteq> get_prop cafe_decomposed ''Name''"
    by (simp add: cafe_precomposed_def cafe_decomposed_def breach_def get_prop_def)
  have t: "HIBP_types ''Name'' = Some ''string''" by (simp add: HIBP_types_def)
  have up: "array_sort (sort_fn example_host (effective_key (Some ''Name''))
             (effective_direction example_host (Some ''Name'') VUndefined)
             (HIBP_types (effective_key (Some ''Name'')))) [cafe_precomposed, cafe_decomposed] =
          Inr [cafe_precomposed, cafe_decomposed]"
    by (simp add: sort_eval_defs Let_def)
  have down: "array_sort (sort_fn example_host (effective_key (Some ''-Name''))
             (effective_direction example_host (Some ''-Name'') VUndefined)
             (HIBP_types (effective_key (Some ''-Name'')))) [cafe_precomposed, cafe_decomposed] =
          Inr [cafe_precomposed, cafe_decomposed]"
    by (simp add: sort_eval_defs Let_def)
  have srt: "sort_op example_host (Some k) VUndefined s =
             Inr (s\<lparr>heap := (heap s)(ref_breaches s := [cafe_precomposed, cafe_decomposed])\<rparr>)"
    if "working s = [cafe_precomposed, cafe_decomposed]" "k = ''Name'' \<or> k = ''-Name''" for s k
    using that up down by (auto simp: sort_op_def Let_def)
  have w0: "working (getBreaches [cafe_precomposed, cafe_decomposed]) =
            [cafe_precomposed, cafe_decomposed]"
    by (simp add: getBreaches_def working_def)
  have w: "working (s\<lparr>heap := (heap s)(ref_breaches s := xs)\<rparr>) = xs" for s :: hibp and xs
    by (simp add: working_def)
  have d: "cafe_precomposed \<noteq> cafe_decomposed"
    using ne by auto
  show ?thesis using wf ne t d by (simp add: srt w0 w state_of_def)
qed

text \<open>
  Claim C2. For every key argument whose key, after the minus sign is stripped, is not in
  \<open>HIBP_types\<close>, the comparator returns \<^verbatim>\<open>true\<close> for every pair of records:
  a truthy value that converts to 1, not 0 and not an exception; and the call of
  \<^verbatim>\<open>sort\<close> returns.
\<close>

theorem sort_unknown_key:
  assumes "HIBP_types (effective_key key) = None"
  shows "sort_fn h (effective_key key) (effective_direction h key direction)
           (HIBP_types (effective_key key)) a b = Inr (VBool True) \<and>
         truthy (VBool True) \<and> to_number (VBool True) \<noteq> Fin 0 \<and>
         (\<exists>s'. sort_op h key direction s = Inr s')"
proof -
  have fn: "sort_fn h (effective_key key) (effective_direction h key direction) None x y = Inr (VBool True)"
    for x y
    by (simp add: sort_fn_def)
  have "returns (sort_fn h (effective_key key) (effective_direction h key direction) None)
          (set (working s))"
    unfolding returns_def using fn by blast
  then have "\<exists>xs. array_sort (sort_fn h (effective_key key) (effective_direction h key direction) None)
               (working s) = Inr xs"
    using array_sort_pure by blast
  then have "\<exists>s'. sort_op h key direction s = Inr s'"
    using assms by (auto simp: sort_op_def Let_def)
  then show ?thesis using assms fn by simp
qed

text \<open>Claim C2 at the key \<^verbatim>\<open>Title\<close>, a field of the schema that the table lacks.\<close>

theorem sort_unknown_key_witness:
  "HIBP_types (effective_key (Some ''Title'')) = None \<and>
   sort_fn example_host (effective_key (Some ''Title''))
     (effective_direction example_host (Some ''Title'') VUndefined)
     (HIBP_types (effective_key (Some ''Title''))) cafe_precomposed cafe_decomposed = Inr (VBool True) \<and>
   (\<exists>s'. sort_op example_host (Some ''Title'') VUndefined (getBreaches example_breaches) = Inr s')"
proof -
  have h: "HIBP_types (effective_key (Some ''Title'')) = None"
    by (simp add: HIBP_types_def effective_key_def)
  show ?thesis
    using h sort_unknown_key[OF h, of example_host VUndefined cafe_precomposed cafe_decomposed
        "getBreaches example_breaches"]
    by simp
qed

text \<open>
  Claim C3. After \<^verbatim>\<open>getBreaches\<close> and any sequence of calls of the chain
  methods, each of which returns or throws, the snapshot \<^verbatim>\<open>_origBreaches\<close> still
  holds the loaded records, and \<^verbatim>\<open>reset()\<close> makes the working set equal to them.
\<close>

theorem reset_restores_snapshot:
  "original (run h calls (getBreaches data)) = data \<and>
   working (reset (run h calls (getBreaches data))) = data \<and>
   original (reset (run h calls (getBreaches data))) = data"
proof -
  have k: "snapshot_kept data (run h calls (getBreaches data))"
    by (rule snapshot_run[OF snapshot_getBreaches])
  then have "snapshot_kept data (reset (run h calls (getBreaches data)))"
    by (simp add: reset_def snapshot_assign)
  then show ?thesis using k
    by (simp add: snapshot_kept_def reset_def working_assign_breaches)
qed

text \<open>
  Claim C4. \<^verbatim>\<open>breaches(0)\<close> and \<^verbatim>\<open>breaches()\<close> return the whole working set,
  and \<^verbatim>\<open>breaches(n)\<close> for a positive integer \<open>n\<close> returns its first \<open>n\<close>
  records, all of them when \<open>n\<close> exceeds its length.
\<close>

theorem breaches_limit:
  "breaches (VNum (Fin 0)) s = working s \<and>
   breaches VUndefined s = working s \<and>
   (0 < n \<longrightarrow> breaches (VNum (Fin n)) s = take (nat n) (working s))"
  by (auto simp: breaches_def slice0_def Let_def min_def)

text \<open>Claim C4 on the example data with the limit 2.\<close>

theorem breaches_limit_witness:
  "(0::int) < 2 \<and>
   breaches (VNum (Fin 2)) (getBreaches example_breaches) =
     take 2 (working (getBreaches example_breaches)) \<and>
   breaches (VNum (Fin 0)) (getBreaches example_breaches) = example_breaches"
  using breaches_limit[of "getBreaches example_breaches" 2]
  by (simp add: getBreaches_def working_def)

text \<open>
  Claim C5. \<^verbatim>\<open>hasDomain(d)\<close> for a string \<open>d\<close>, the empty string included,
  keeps exactly the records whose \<^verbatim>\<open>Domain\<close> is \<open>d\<close>;
  \<^verbatim>\<open>hasDomain()\<close> keeps exactly the records whose \<^verbatim>\<open>Domain\<close> is not the
  empty string; the results of \<^verbatim>\<open>hasDomain("")\<close> and \<^verbatim>\<open>hasDomain()\<close>
  share no record.
\<close>

theorem hasDomain_filter:
  "\<exists>s1 s2 s3.
     hasDomain (VStr d) s = Inr s1 \<and>
     working s1 = filter (\<lambda>b. get_prop b ''Domain'' = VStr d) (working s) \<and>
     hasDomain VUndefined s = Inr s2 \<and>
     working s2 = filter (\<lambda>b. get_prop b ''Domain'' \<noteq> VStr []) (working s) \<and>
     hasDomain (VStr []) s = Inr s3 \<and>
     set (working s3) \<inter> set (working s2) = {}"
proof -
  have a: "hasDomain (VStr e) s =
      Inr (assign_breaches (filter (\<lambda>b. get_prop b ''Domain'' = VStr e) (working s)) s)" for e
    unfolding hasDomain_def Let_def
    by (simp, rule filter_op_pure) (simp add: strict_eq_VStr)
  have b: "hasDomain VUndefined s =
      Inr (assign_breaches (filter (\<lambda>b. get_prop b ''Domain'' \<noteq> VStr []) (working s)) s)"
    unfolding hasDomain_def Let_def
    by (simp, rule filter_op_pure) (simp add: strict_eq_VStr)
  show ?thesis
    by (auto simp: a b working_assign_breaches)
qed

text \<open>
  Claim C6, as amended. On a working set whose records all have a \<^verbatim>\<open>DataClasses\<close>
  array, \<^verbatim>\<open>hasDataClass\<close> called with the classes \<open>cs\<close>, given one by one
  or in arrays, keeps exactly the records whose \<^verbatim>\<open>DataClasses\<close> contains every
  class of \<open>cs\<close>, in their order.
\<close>

theorem hasDataClass_conjunction:
  assumes "\<forall>b\<in>set (working s). is_array (get_prop b ''DataClasses'')"
    and "flat dataClasses = map VStr cs"
  shows "\<exists>s'. hasDataClass h dataClasses s = Inr s' \<and>
           working s' =
             filter (\<lambda>b. \<exists>ss. get_prop b ''DataClasses'' = VArr ss \<and> set cs \<subseteq> set ss)
               (working s)"
  using hasDataClass_loop_strings[OF assms(1), of h cs] assms(2)
  by (simp add: hasDataClass_def)

text \<open>Claim C6 on the example data: one record has both classes.\<close>

theorem hasDataClass_conjunction_witness:
  "list_all (\<lambda>b. is_array (get_prop b ''DataClasses'')) (working (getBreaches example_breaches)) \<and>
   flat [VStr ''names'', VArr [''job-titles'']] = map VStr [''names'', ''job-titles''] \<and>
   (\<exists>s'. hasDataClass example_host [VStr ''names'', VArr [''job-titles'']]
            (getBreaches example_breaches) = Inr s' \<and>
         working s' =
           [breach ''MasterDeeds'' [] 1508198400000 60000000 True [''names'', ''job-titles'']])"
proof -
  have h1: "\<forall>b\<in>set (working (getBreaches example_breaches)). is_array (get_prop b ''DataClasses'')"
    by (simp add: example_defs is_array_def)
  have h2: "flat [VStr ''names'', VArr [''job-titles'']] = map VStr [''names'', ''job-titles'']"
    by simp
  have "filter (\<lambda>b. \<exists>ss. get_prop b ''DataClasses'' = VArr ss \<and>
                 set [''names'', ''job-titles''] \<subseteq> set ss)
          (working (getBreaches example_breaches)) =
        [breach ''MasterDeeds'' [] 1508198400000 60000000 True [''names'', ''job-titles'']]"
    by (simp add: example_defs)
  then show ?thesis
    using h1 h2 hasDataClass_conjunction[OF h1 h2, of example_host] by (simp add: list_all_iff)
qed

text \<open>
  Claim C6 as stated fails on a working set without \<^verbatim>\<open>DataClasses\<close>. After
  \<^verbatim>\<open>pluck("Name")\<close> no record contains the class \<^verbatim>\<open>names\<close>, so the
  claim has \<^verbatim>\<open>hasDataClass("names")\<close> keep no record; the call of
  \<^verbatim>\<open>includes\<close> on undefined throws a TypeError instead, and the working set
  still holds the three records.
\<close>

theorem hasDataClass_conjunction_counterexample:
  "working (pluck example_host [VStr ''Name''] (getBreaches example_breaches)) =
     [[(''Name'', VStr ''Adobe'')], [(''Name'', VStr ''MasterDeeds'')], [(''Name'', VStr ''LinkedIn'')]] \<and>
   filter (\<lambda>b. \<exists>ss. get_prop b ''DataClasses'' = VArr ss \<and> set [''names''] \<subseteq> set ss)
     (working (pluck example_host [VStr ''Name''] (getBreaches example_breaches))) = [] \<and>
   isl (hasDataClass example_host [VStr ''names'']
          (pluck example_host [VStr ''Name''] (getBreaches example_breaches))) \<and>
   working (state_of (hasDataClass example_host [VStr ''names'']
          (pluck example_host [VStr ''Name''] (getBreaches example_breaches)))) =
     [[(''Name'', VStr ''Adobe'')], [(''Name'', VStr ''MasterDeeds'')], [(''Name'', VStr ''LinkedIn'')]]"
proof -
  let ?s = "pluck example_host [VStr ''Name''] (getBreaches example_breaches)"
  let ?ws = "[[(''Name'', VStr ''Adobe'')], [(''Name'', VStr ''MasterDeeds'')], [(''Name'', VStr ''LinkedIn'')]]"
  have "working ?s =
        map (pluck_one example_host (flat [VStr ''Name''])) (working (getBreaches example_breaches))"
    by (simp only: pluck_def working_assign_breaches)
  also have "\<dots> = ?ws"
    by (simp add: pluck_one_def example_defs)
  finally have w: "working ?s = ?ws" .
  have f: "filter (\<lambda>b. \<exists>ss. get_prop b ''DataClasses'' = VArr ss \<and> set [''names''] \<subseteq> set ss) ?ws = []"
    by (simp add: get_prop_def)
  have "array_filter (\<lambda>breach. includes_method example_host (get_prop breach ''DataClasses'') (VStr ''names'')) ?ws =
        Inl TypeError"
    by (simp add: get_prop_def)
  then have t: "hasDataClass example_host [VStr ''names''] ?s = Inl (TypeError, ?s)"
    by (simp add: hasDataClass_def filter_op_def w)
  have f': "filter (\<lambda>b. \<exists>ss. get_prop b ''DataClasses'' = VArr ss \<and> set [''names''] \<subseteq> set ss)
              (working ?s) = []"
    by (simp only: w f)
  have i: "isl (hasDataClass example_host [VStr ''names''] ?s)"
    by (simp only: t sum.disc)
  have k: "working (state_of (hasDataClass example_host [VStr ''names''] ?s)) = ?ws"
    by (simp only: t state_of_def sum.case prod.case w)
  show ?thesis using w f' i k by (intro conjI)
qed

text \<open>
  Claim C7. Sorting by a key of the table is stable: on a working set whose records have
  values of the declared type at the key, and on a host whose \<^verbatim>\<open>localeCompare\<close>
  is a consistent comparator, \<^verbatim>\<open>sort\<close> returns, and for every record \<open>x\<close> of
  the working set the records that compare as equal to \<open>x\<close> are in the same order before
  and after the call.
\<close>

theorem sort_stable:
  assumes lc: "consistent_collation (localeCompare h)"
    and t: "HIBP_types (effective_key key) \<noteq> None"
    and ty: "\<forall>b\<in>set (working s). typed_at (effective_key key) b"
  shows "\<exists>s'. sort_op h key direction s = Inr s' \<and>
           (\<forall>x\<in>set (working s).
              filter (\<lambda>b. compares_equal
                        (sort_fn h (effective_key key) (effective_direction h key direction) (HIBP_types (effective_key key)))
                        b x) (working s') =
              filter (\<lambda>b. compares_equal
                        (sort_fn h (effective_key key) (effective_direction h key direction) (HIBP_types (effective_key key)))
                        b x) (working s))"
proof -
  obtain ty' where t': "HIBP_types (effective_key key) = Some ty'" using t by blast
  let ?k = "effective_key key" and ?d = "effective_direction h key direction"
  let ?fn = "sort_fn h ?k ?d (Some ty')"
  let ?c = "\<lambda>a b. key_compare h (get_prop a ?k) (get_prop b ?k)"
  have c: "consistent_on (set (working s)) ?c"
    by (rule key_compare_consistent[OF t' ty lc])
  have "filter (\<lambda>b. compares_equal ?fn b x) (sort_by (precedes ?fn) [] (working s)) =
        rev (filter (\<lambda>b. compares_equal ?fn b x) []) @ filter (\<lambda>b. compares_equal ?fn b x) (working s)"
    if x: "x \<in> set (working s)" for x
  proof (rule filter_sort_by)
    fix a b
    assume a: "a \<in> set [] \<union> set (working s)" and b: "b \<in> set [] \<union> set (working s)"
      and ea: "compares_equal ?fn a x" and eb: "compares_equal ?fn b x"
    have ta: "typed_at ?k a" and tb: "typed_at ?k b" and tx: "typed_at ?k x"
      using a b x ty by auto
    show "\<not> precedes ?fn a b"
    proof (cases "to_number ?d")
      case NaN
      then show ?thesis by (simp add: precedes_typed[OF t' ta tb])
    next
      case (Fin n)
      have "?c a x * n = 0" "?c b x * n = 0"
        using ea eb Fin by (simp_all add: compares_equal_typed[OF t' ta tx] compares_equal_typed[OF t' tb tx])
      then have "\<not> ?c a b * n < 0"
        using equal_never_precedes[OF c, of a b x n] a b x by simp
      then show ?thesis using Fin by (simp add: precedes_typed[OF t' ta tb])
    qed
  qed
  then show ?thesis
    by (simp add: sort_op_typed[OF t' ty] t' working_sorted)
qed

text \<open>
  Claim C7 on the example data, sorted by \<^verbatim>\<open>IsVerified\<close>, which two of the three
  records share.
\<close>

theorem sort_stable_witness:
  "consistent_collation (localeCompare example_host) \<and>
   HIBP_types (effective_key (Some ''IsVerified'')) \<noteq> None \<and>
   list_all (typed_at (effective_key (Some ''IsVerified''))) (working (getBreaches example_breaches)) \<and>
   (\<exists>s'. sort_op example_host (Some ''IsVerified'') VUndefined (getBreaches example_breaches) = Inr s' \<and>
      (\<forall>x\<in>set (working (getBreaches example_breaches)).
         filter (\<lambda>b. compares_equal
                   (sort_fn example_host (effective_key (Some ''IsVerified''))
                      (effective_direction example_host (Some ''IsVerified'') VUndefined)
                      (HIBP_types (effective_key (Some ''IsVerified'')))) b x) (working s') =
         filter (\<lambda>b. compares_equal
                   (sort_fn example_host (effective_key (Some ''IsVerified''))
                      (effective_direction example_host (Some ''IsVerified'') VUndefined)
                      (HIBP_types (effective_key (Some ''IsVerified'')))) b x)
           (working (getBreaches example_breaches))))"
proof -
  have h1: "consistent_collation (localeCompare example_host)" by (rule collate_consistent)
  have k: "effective_key (Some ''IsVerified'') = ''IsVerified''" by (simp add: effective_key_def)
  have h2: "HIBP_types (effective_key (Some ''IsVerified'')) \<noteq> None"
    by (simp add: k HIBP_types_def)
  have h3: "\<forall>b\<in>set (working (getBreaches example_breaches)).
              typed_at (effective_key (Some ''IsVerified'')) b"
    by (simp add: k example_defs typed_at_def HIBP_types_def is_boolean_def)
  show ?thesis
    using h1 h2 h3 sort_stable[OF h1 h2 h3, of VUndefined] by (simp add: list_all_iff)
qed

text \<open>
  Claim C8. On a working set of well-formed records every call of a chain method returns,
  a call of \<^verbatim>\<open>filter\<close> provided that its callback returns on the records; and the
  comparator of \<^verbatim>\<open>sort\<close>, the date case included, returns for every key and
  direction on every two records of the working set.
\<close>

theorem well_formed_no_raise:
  assumes wf: "\<forall>b\<in>set (working s). well_formed b"
    and cb: "\<forall>fn. c = Filter (Some fn) \<longrightarrow> (\<forall>b\<in>set (working s). \<exists>v. fn b = Inr v)"
  shows "(\<exists>s'. step h c s = Inr s') \<and>
         (\<forall>a\<in>set (working s). \<forall>b\<in>set (working s).
            \<exists>v. sort_fn h k d (HIBP_types k) a b = Inr v)"
proof
  show "\<exists>s'. step h c s = Inr s'"
  proof (cases c)
    case (Filter fn)
    show ?thesis
    proof (cases fn)
      case None
      then show ?thesis using Filter filter_op_default by simp
    next
      case (Some f)
      then show ?thesis using Filter cb filter_op_returns[of s f] by simp
    qed
  next
    case (HasDataClass cs)
    have "\<forall>b\<in>set (working s). is_array (get_prop b ''DataClasses'')"
      using wf by (simp add: well_formed_def)
    then show ?thesis
      using HasDataClass hasDataClass_loop_returns by (simp add: hasDataClass_def)
  next
    case (Sort k' d')
    then show ?thesis using sort_op_returns[OF wf] by simp
  qed (simp_all add: isFabricated_def isRetired_def isSensitive_def isSpamList_def isVerified_def
         boolProp_returns hasDomain_returns name_returns)
  show "\<forall>a\<in>set (working s). \<forall>b\<in>set (working s). \<exists>v. sort_fn h k d (HIBP_types k) a b = Inr v"
    using wf sort_fn_returns by blast
qed

text \<open>Claim C8 on the example data, sorted by the date \<^verbatim>\<open>AddedDate\<close>, descending.\<close>

theorem well_formed_no_raise_witness:
  "list_all well_formed (working (getBreaches example_breaches)) \<and>
   (\<exists>s'. step example_host (Sort (Some ''-AddedDate'') VUndefined)
            (getBreaches example_breaches) = Inr s')"
proof -
  have h1: "\<forall>b\<in>set (working (getBreaches example_breaches)). well_formed b"
    by (simp add: example_defs well_formed_def is_string_def is_date_def is_integer_def
          is_array_def is_boolean_def)
  have h2: "\<forall>fn. Sort (Some ''-AddedDate'') VUndefined = Filter (Some fn) \<longrightarrow>
              (\<forall>b\<in>set (working (getBreaches example_breaches)). \<exists>v. fn b = Inr v)"
    by simp
  show ?thesis
    using h1 well_formed_no_raise[OF h1 h2, of example_host "''AddedDate''" VUndefined]
    by (simp add: list_all_iff)
qed

text \<open>
  Claim C9. \<^verbatim>\<open>name()\<close> without arguments returns and leaves the working set empty.
\<close>

theorem name_no_arguments: "\<exists>s'. name [] s = Inr s' \<and> working s' = []"
proof -
  have "name [] s = Inr (assign_breaches (filter (\<lambda>_. False) (working s)) s)"
    unfolding name_def Let_def
    by (rule filter_op_pure) (simp add: array_includes_def)
  then show ?thesis by (simp add: working_assign_breaches)
qed

text \<open>
  Claim C10. For a negative integer \<open>n\<close>, \<^verbatim>\<open>breaches(n)\<close> returns the first
  \<open>max (L - |n|) 0\<close> records of a working set of length \<open>L\<close>.
\<close>

theorem breaches_negative_limit:
  "n < 0 \<Longrightarrow>
   breaches (VNum (Fin n)) s = take (nat (max (int (length (working s)) - \<bar>n\<bar>) 0)) (working s)"
  by (auto simp: breaches_def slice0_def Let_def)

text \<open>Claim C10 on the example data with the limit \<open>-1\<close>.\<close>

theorem breaches_negative_limit_witness:
  "(- 1::int) < 0 \<and>
   breaches (VNum (Fin (- 1))) (getBreaches example_breaches) = take 2 example_breaches"
  using breaches_negative_limit[of "- 1" "getBreaches example_breaches"]
  by (simp add: getBreaches_def working_def example_breaches_def)

end
